theory Spec2Isabelle
  imports Main "HOL-Library.Sublist"
begin

section \<open>Python values shared by the modules\<close>

text \<open>
  The dictionaries handled by the agent and by the graph builder are decoded JSON
  objects with string keys. The values that reach the modelled code are \<open>None\<close>,
  strings and integers; a dictionary is an association list with unique keys, read
  with \<open>dict.get\<close>.
\<close>

datatype pyval = PNone | PStr string | PInt int

type_synonym pydict = "(string \<times> pyval) list"

text \<open>\<open>d.get(k)\<close>: the value stored under \<open>k\<close>, \<open>None\<close> when the key is absent.\<close>

definition dget :: "pydict \<Rightarrow> string \<Rightarrow> pyval" where
  "dget d k = (case map_of d k of None \<Rightarrow> PNone | Some v \<Rightarrow> v)"

text \<open>\<open>d.get(k, dflt)\<close>.\<close>

definition dget_default :: "pydict \<Rightarrow> string \<Rightarrow> pyval \<Rightarrow> pyval" where
  "dget_default d k dflt = (case map_of d k of None \<Rightarrow> dflt | Some v \<Rightarrow> v)"

text \<open>Truthiness as \<open>or\<close> and \<open>if\<close> test it.\<close>

fun truthy :: "pyval \<Rightarrow> bool" where
  "truthy PNone = False"
| "truthy (PStr s) = (s \<noteq> [])"
| "truthy (PInt i) = (i \<noteq> 0)"

text \<open>Decimal rendering of a natural number and of an integer, as \<open>str\<close> prints them.\<close>

definition digit_char :: "nat \<Rightarrow> char" where
  "digit_char d = char_of (48 + d)"

function show_nat :: "nat \<Rightarrow> string" where
  "show_nat n = (if n < 10 then [digit_char n] else show_nat (n div 10) @ [digit_char (n mod 10)])"
  by pat_completeness auto
termination
  by (relation "measure (\<lambda>n. n)") auto

definition show_int :: "int \<Rightarrow> string" where
  "show_int i = (if i < 0 then CHR ''-'' # show_nat (nat (- i)) else show_nat (nat i))"

text \<open>\<open>str(v)\<close>, which an f-string applies to each interpolated value.\<close>

fun py_str :: "pyval \<Rightarrow> string" where
  "py_str PNone = ''None''"
| "py_str (PStr s) = s"
| "py_str (PInt i) = show_int i"

definition nl :: string where
  "nl = [CHR 0x0A]"

text \<open>A type name between single quotes, as exception messages print it.\<close>

definition quoted :: "string \<Rightarrow> string" where
  "quoted s = [CHR 0x27] @ s @ [CHR 0x27]"

text \<open>\<open>sep.join(xs)\<close>.\<close>

fun join :: "string \<Rightarrow> string list \<Rightarrow> string" where
  "join sep [] = []"
| "join sep [x] = x"
| "join sep (x # y # ys) = x @ sep @ join sep (y # ys)"

section \<open>The investigative agent (agents/investigative\_agent.py)\<close>

text \<open>
  \<open>datetime.now()\<close> is read from a clock: \<open>clk n\<close> is the instant returned by the
  \<open>n\<close>-th reading, in microseconds, and the number of readings made so far is part of
  the state. An instant stands for its ISO rendering, and a duration is the difference
  of two instants.
\<close>

type_synonym clock = "nat \<Rightarrow> int"

record log_entry =
  timestamp :: int
  message :: string

record agent =
  agent_type :: string
  models :: "string list"
  execution_log :: "log_entry list"

text \<open>
  The dictionary \<open>execute\<close> returns. A key that is set only on some paths is an
  optional field: \<open>None\<close> is the absent key. \<open>output\<close> is present from the start with
  the Python value \<open>None\<close>, which is \<open>None\<close> here as well.
\<close>

record exec_record =
  r_agent_type :: string
  r_task :: string
  r_models :: "string list"
  r_status :: string
  r_start_time :: int
  r_steps :: "log_entry list"
  r_output :: "string option"
  r_execution_log :: "log_entry list option"
  r_error :: "string option"
  r_end_time :: "int option"
  r_duration_seconds :: "int option"

text \<open>The agent together with the number of clock readings made so far.\<close>

type_synonym agent_state = "agent \<times> nat"

definition init_agent :: "string \<Rightarrow> string list \<Rightarrow> agent" where
  "init_agent ty ms = \<lparr>agent_type = ty, models = ms, execution_log = []\<rparr>"

fun log_step :: "clock \<Rightarrow> string \<Rightarrow> agent_state \<Rightarrow> agent_state" where
  "log_step clk msg (a, t) =
     (a\<lparr>execution_log := execution_log a @ [\<lparr>timestamp = clk t, message = msg\<rparr>]\<rparr>, Suc t)"

text \<open>
  A variant procedure returns its output, or the message of the exception it raised
  (\<open>Inl\<close>), together with the state it left behind.
\<close>

type_synonym outcome = "(string + string) \<times> agent_state"

fun research_loop :: "clock \<Rightarrow> string \<Rightarrow> string list \<Rightarrow> string list \<Rightarrow> agent_state
    \<Rightarrow> string list \<times> agent_state" where
  "research_loop clk task [] outputs s = (outputs, s)"
| "research_loop clk task (m # ms) outputs s =
     research_loop clk task ms
       (outputs @ [''['' @ m @ ''] Research on: '' @ task])
       (log_step clk (''Querying model: '' @ m) s)"

definition research_agent :: "clock \<Rightarrow> string \<Rightarrow> pydict \<Rightarrow> agent_state \<Rightarrow> outcome" where
  "research_agent clk task parameters s =
     (let s1 = log_step clk ''Starting research agent'' s;
          (outputs, s2) = research_loop clk task (models (fst s1)) [] s1;
          result = join (nl @ nl) outputs;
          s3 = log_step clk ''Research completed'' s2
      in (Inr result, s3))"

text \<open>
  \<open>data[:100]\<close>: a string is cut to its first 100 characters; \<open>None\<close> and integers
  raise \<open>TypeError\<close>.
\<close>

fun slice100 :: "pyval \<Rightarrow> string + pyval" where
  "slice100 (PStr s) = Inr (PStr (take 100 s))"
| "slice100 PNone = Inl (quoted ''NoneType'' @ '' object is not subscriptable'')"
| "slice100 (PInt i) = Inl (quoted ''int'' @ '' object is not subscriptable'')"

fun analysis_loop :: "clock \<Rightarrow> string \<Rightarrow> pyval \<Rightarrow> string list \<Rightarrow> string list \<Rightarrow> agent_state
    \<Rightarrow> (string + string list) \<times> agent_state" where
  "analysis_loop clk task data [] outputs s = (Inr outputs, s)"
| "analysis_loop clk task data (m # ms) outputs s =
     (let s1 = log_step clk (''Analyzing with model: '' @ m) s in
      case slice100 data of
        Inl err \<Rightarrow> (Inl err, s1)
      | Inr d \<Rightarrow>
          analysis_loop clk task data ms
            (outputs @ [''['' @ m @ ''] Analysis of: '' @ task @ nl @ ''Data: '' @ py_str d @ ''...''])
            s1)"

definition analysis_agent :: "clock \<Rightarrow> string \<Rightarrow> pydict \<Rightarrow> agent_state \<Rightarrow> outcome" where
  "analysis_agent clk task parameters s =
     (let s1 = log_step clk ''Starting analysis agent'' s;
          data = dget_default parameters ''data'' (PStr [])
      in case analysis_loop clk task data (models (fst s1)) [] s1 of
           (Inl err, s2) \<Rightarrow> (Inl err, s2)
         | (Inr outputs, s2) \<Rightarrow>
             (let result = join (nl @ nl) outputs;
                  s3 = log_step clk ''Analysis completed'' s2
              in (Inr result, s3)))"

text \<open>\<open>len(content)\<close>: defined on strings; \<open>None\<close> and integers raise \<open>TypeError\<close>.\<close>

fun py_len :: "pyval \<Rightarrow> string + nat" where
  "py_len (PStr s) = Inr (length s)"
| "py_len PNone = Inl (''object of type '' @ quoted ''NoneType'' @ '' has no len()'')"
| "py_len (PInt i) = Inl (''object of type '' @ quoted ''int'' @ '' has no len()'')"

definition summary_agent :: "clock \<Rightarrow> string \<Rightarrow> pydict \<Rightarrow> agent_state \<Rightarrow> outcome" where
  "summary_agent clk task parameters s =
     (let s1 = log_step clk ''Starting summary agent'' s;
          content = dget_default parameters ''content'' (PStr []);
          model = (case models (fst s1) of [] \<Rightarrow> ''default'' | m # ms \<Rightarrow> m);
          s2 = log_step clk (''Generating summary with model: '' @ model) s1
      in case py_len content of
           Inl err \<Rightarrow> (Inl err, s2)
         | Inr n \<Rightarrow>
             (let result = ''['' @ model @ ''] Summary of: '' @ task @ nl
                    @ ''Content length: '' @ show_nat n @ '' characters'';
                  s3 = log_step clk ''Summary completed'' s2
              in (Inr result, s3)))"

definition investigation_agent :: "clock \<Rightarrow> string \<Rightarrow> pydict \<Rightarrow> agent_state \<Rightarrow> outcome" where
  "investigation_agent clk task parameters s =
     (let s1 = log_step clk ''Starting investigation agent'' s;
          s2 = log_step clk ''Step 1: Information gathering'' s1;
          info = ''Gathering information about: '' @ task;
          s3 = log_step clk ''Step 2: Analysis'' s2;
          analysis = ''Analyzing findings for: '' @ task;
          s4 = log_step clk ''Step 3: Cross-referencing'' s3;
          cross_ref = ''Cross-referencing data across sources'';
          s5 = log_step clk ''Step 4: Report generation'' s4;
          report = nl @ ''INVESTIGATION REPORT'' @ nl
            @ ''===================='' @ nl
            @ ''Task: '' @ task @ nl
            @ ''Models Used: '' @ join '', '' (models (fst s5)) @ nl
            @ nl
            @ ''1. Information Gathering:'' @ nl
            @ info @ nl
            @ nl
            @ ''2. Analysis:'' @ nl
            @ analysis @ nl
            @ nl
            @ ''3. Cross-Reference:'' @ nl
            @ cross_ref @ nl
            @ nl
            @ ''4. Conclusion:'' @ nl
            @ ''Investigation completed. See detailed findings above.'' @ nl;
          s6 = log_step clk ''Investigation completed'' s5
      in (Inr report, s6))"

text \<open>The body of the \<open>try\<close> block up to the assignment of \<open>output\<close>: the dispatch on the agent type.\<close>

definition run_variant :: "clock \<Rightarrow> string \<Rightarrow> pydict \<Rightarrow> agent_state \<Rightarrow> outcome" where
  "run_variant clk task parameters s =
     (let ty = agent_type (fst s) in
      if ty = ''research'' then research_agent clk task parameters s
      else if ty = ''analysis'' then analysis_agent clk task parameters s
      else if ty = ''summary'' then summary_agent clk task parameters s
      else if ty = ''investigation'' then investigation_agent clk task parameters s
      else (Inr (''Unknown agent type: '' @ ty), s))"

definition execute :: "clock \<Rightarrow> string \<Rightarrow> pydict \<Rightarrow> agent_state \<Rightarrow> exec_record \<times> agent_state" where
  "execute clk task parameters s =
     (let (a, t) = s;
          start_time = clk t;
          result = \<lparr>r_agent_type = agent_type a, r_task = task, r_models = models a,
                    r_status = ''completed'', r_start_time = start_time, r_steps = [],
                    r_output = None, r_execution_log = None, r_error = None,
                    r_end_time = None, r_duration_seconds = None\<rparr>;
          (res, (a', t')) = run_variant clk task parameters (a, Suc t);
          result1 = (case res of
                       Inr output \<Rightarrow>
                         result\<lparr>r_output := Some output, r_execution_log := Some (execution_log a')\<rparr>
                     | Inl err \<Rightarrow> result\<lparr>r_status := ''failed'', r_error := Some err\<rparr>);
          end_time = clk t'
      in (result1\<lparr>r_end_time := Some end_time,
                   r_duration_seconds := Some (end_time - start_time)\<rparr>,
          (a', Suc t')))"

section \<open>The graph builder (graph/graph\_builder.py)\<close>

text \<open>
  An entity is a dictionary. A node keeps the entity it was made from; node ids, labels,
  types and sources are whatever values the entity carries under the respective keys.
\<close>

record node =
  node_id :: pyval
  node_label :: pyval
  node_type :: pyval
  node_source :: pyval
  node_data :: pydict

record edge =
  edge_id :: string
  edge_source :: pyval
  edge_target :: pyval
  edge_type :: string
  edge_weight :: int

text \<open>The three attributes of a \<open>GraphBuilder\<close> object.\<close>

record builder =
  b_nodes :: "node list"
  b_edges :: "edge list"
  b_node_ids :: "pyval set"

text \<open>The dictionary \<open>build_graph\<close> returns, with the two entries of \<open>stats\<close> as fields.\<close>

record graph =
  g_nodes :: "node list"
  g_edges :: "edge list"
  g_node_count :: nat
  g_edge_count :: nat

definition init_builder :: builder where
  "init_builder = \<lparr>b_nodes = [], b_edges = [], b_node_ids = {}\<rparr>"

text \<open>\<open>entity.get("id") or entity.get("value", "unknown")\<close>.\<close>

definition node_key :: "pydict \<Rightarrow> pyval" where
  "node_key entity =
     (if truthy (dget entity ''id'') then dget entity ''id''
      else dget_default entity ''value'' (PStr ''unknown''))"

definition make_node :: "pydict \<Rightarrow> node" where
  "make_node entity =
     \<lparr>node_id = node_key entity,
      node_label = dget_default entity ''value'' (PStr []),
      node_type = dget_default entity ''type'' (PStr ''unknown''),
      node_source = dget_default entity ''source'' (PStr ''default''),
      node_data = entity\<rparr>"

definition add_node :: "builder \<Rightarrow> pydict \<Rightarrow> builder" where
  "add_node b entity =
     (if node_key entity \<notin> b_node_ids b
      then b\<lparr>b_node_ids := insert (node_key entity) (b_node_ids b),
             b_nodes := b_nodes b @ [make_node entity]\<rparr>
      else b)"

text \<open>
  \<open>x >= 0\<close> for a value read from a dictionary: defined on integers; \<open>None\<close> and
  strings raise \<open>TypeError\<close>.
\<close>

fun ge_zero :: "pyval \<Rightarrow> string + bool" where
  "ge_zero (PInt i) = Inr (0 \<le> i)"
| "ge_zero PNone = Inl (quoted ''>='' @ '' not supported between instances of ''
      @ quoted ''NoneType'' @ '' and '' @ quoted ''int'')"
| "ge_zero (PStr s) = Inl (quoted ''>='' @ '' not supported between instances of ''
      @ quoted ''str'' @ '' and '' @ quoted ''int'')"

fun int_of :: "pyval \<Rightarrow> int" where
  "int_of (PInt i) = i"
| "int_of v = 0"

text \<open>
  \<open>_are_related\<close>. The conjunction \<open>start1 >= 0 and start2 >= 0\<close> evaluates its second
  operand only when the first is true; the distance is computed only when both
  operands are non-negative integers.
\<close>

definition are_related :: "pydict \<Rightarrow> pydict \<Rightarrow> string + bool" where
  "are_related entity1 entity2 =
     (if dget entity1 ''type'' = dget entity2 ''type'' then Inr True
      else
        let start1 = dget_default entity1 ''start'' (PInt (- 1));
            start2 = dget_default entity2 ''start'' (PInt (- 1))
        in case ge_zero start1 of
             Inl err \<Rightarrow> Inl err
           | Inr False \<Rightarrow> Inr False
           | Inr True \<Rightarrow>
               (case ge_zero start2 of
                  Inl err \<Rightarrow> Inl err
                | Inr False \<Rightarrow> Inr False
                | Inr True \<Rightarrow> Inr (\<bar>int_of start1 - int_of start2\<bar> < 200)))"

definition make_edge :: "pydict \<Rightarrow> pydict \<Rightarrow> edge" where
  "make_edge entity1 entity2 =
     \<lparr>edge_id = py_str (dget entity1 ''id'') @ ''_'' @ py_str (dget entity2 ''id''),
      edge_source = dget entity1 ''id'',
      edge_target = dget entity2 ''id'',
      edge_type = ''related'',
      edge_weight = 1\<rparr>"

definition source_tag :: "pydict \<Rightarrow> pyval" where
  "source_tag entity = dget_default entity ''source'' (PStr ''default'')"

text \<open>
  \<open>source_groups\<close> is a dictionary from source tags to entity lists; its iteration
  order is the order in which the tags were first inserted, so it is kept as an
  association list.
\<close>

type_synonym groups = "(pyval \<times> pydict list) list"

fun append_to_group :: "pyval \<Rightarrow> pydict \<Rightarrow> groups \<Rightarrow> groups" where
  "append_to_group source entity [] = []"
| "append_to_group source entity ((k, es) # gs) =
     (if k = source then (k, es @ [entity]) # gs
      else (k, es) # append_to_group source entity gs)"

definition group_entity :: "groups \<Rightarrow> pydict \<Rightarrow> groups" where
  "group_entity source_groups entity =
     (let source = source_tag entity;
          gs = (if source \<notin> fst ` set source_groups then source_groups @ [(source, [])]
                else source_groups)
      in append_to_group source entity gs)"

definition group_by_source :: "pydict list \<Rightarrow> groups" where
  "group_by_source entities = foldl group_entity [] entities"

text \<open>
  The loops of \<open>_create_edges\<close>. An exception raised by \<open>_are_related\<close> leaves the loops
  at once; the edges appended so far stay in the builder.
\<close>

fun edges_from :: "pydict \<Rightarrow> pydict list \<Rightarrow> builder \<Rightarrow> string option \<times> builder" where
  "edges_from entity1 [] b = (None, b)"
| "edges_from entity1 (entity2 # rest) b =
     (case are_related entity1 entity2 of
        Inl err \<Rightarrow> (Some err, b)
      | Inr rel \<Rightarrow>
          edges_from entity1 rest
            (if rel then b\<lparr>b_edges := b_edges b @ [make_edge entity1 entity2]\<rparr> else b))"

fun edges_in_group :: "pydict list \<Rightarrow> builder \<Rightarrow> string option \<times> builder" where
  "edges_in_group [] b = (None, b)"
| "edges_in_group (entity1 # rest) b =
     (case edges_from entity1 rest b of
        (Some err, b') \<Rightarrow> (Some err, b')
      | (None, b') \<Rightarrow> edges_in_group rest b')"

fun edges_in_groups :: "groups \<Rightarrow> builder \<Rightarrow> string option \<times> builder" where
  "edges_in_groups [] b = (None, b)"
| "edges_in_groups ((source, group_entities) # gs) b =
     (case edges_in_group group_entities b of
        (Some err, b') \<Rightarrow> (Some err, b')
      | (None, b') \<Rightarrow> edges_in_groups gs b')"

definition create_edges :: "builder \<Rightarrow> pydict list \<Rightarrow> string option \<times> builder" where
  "create_edges b entities = edges_in_groups (group_by_source entities) b"

text \<open>
  \<open>build_graph\<close> returns the graph, or the message of the exception that escaped
  (\<open>Inl\<close>), and the builder as the call left it.
\<close>

definition build_graph :: "builder \<Rightarrow> pydict list \<Rightarrow> (string + graph) \<times> builder" where
  "build_graph b entities =
     (let b0 = b\<lparr>b_nodes := [], b_edges := [], b_node_ids := {}\<rparr>;
          b1 = foldl add_node b0 entities
      in case create_edges b1 entities of
           (Some err, b2) \<Rightarrow> (Inl err, b2)
         | (None, b2) \<Rightarrow>
             (Inr \<lparr>g_nodes = b_nodes b2, g_edges = b_edges b2,
                   g_node_count = length (b_nodes b2), g_edge_count = length (b_edges b2)\<rparr>,
              b2))"

text \<open>\<open>add_custom_edge\<close>: appends the edge only when both ids are known node ids.\<close>

definition add_custom_edge :: "builder \<Rightarrow> pyval \<Rightarrow> pyval \<Rightarrow> string \<Rightarrow> builder" where
  "add_custom_edge b source_id target_id ty =
     (if source_id \<in> b_node_ids b \<and> target_id \<in> b_node_ids b
      then b\<lparr>b_edges := b_edges b @
             [\<lparr>edge_id = py_str source_id @ ''_'' @ py_str target_id,
               edge_source = source_id, edge_target = target_id,
               edge_type = ty, edge_weight = 1\<rparr>]\<rparr>
      else b)"

text \<open>
  The invariant of the grouping loop: the keys are distinct, they are the source tags
  seen so far, and each group holds, in order, the entities seen so far with its tag.
\<close>

definition groups_of :: "groups \<Rightarrow> pydict list \<Rightarrow> bool" where
  "groups_of gs es \<longleftrightarrow> distinct (map fst gs)
     \<and> fst ` set gs = source_tag ` set es
     \<and> (\<forall>(k, grp) \<in> set gs. grp = filter (\<lambda>e. source_tag e = k) es)"

text \<open>Entities for concrete runs of the builder.\<close>

definition ent_x :: pydict where
  "ent_x = [(''value'', PStr ''x'')]"

definition ent_y :: pydict where
  "ent_y = [(''value'', PStr ''y'')]"

definition ent_A_x :: pydict where
  "ent_A_x = [(''id'', PStr ''A''), (''value'', PStr ''x'')]"

definition ent_A_y :: pydict where
  "ent_A_y = [(''id'', PStr ''A''), (''value'', PStr ''y'')]"

definition doc_a :: pydict where
  "doc_a = [(''id'', PStr ''a''), (''type'', PStr ''email''), (''start'', PInt 0), (''source'', PStr ''doc1'')]"

definition doc_b :: pydict where
  "doc_b = [(''id'', PStr ''b''), (''type'', PStr ''email''), (''start'', PInt 5), (''source'', PStr ''doc2'')]"

definition doc_c :: pydict where
  "doc_c = [(''id'', PStr ''c''), (''type'', PStr ''email''), (''start'', PInt 9), (''source'', PStr ''doc1'')]"

definition ent_p0 :: pydict where
  "ent_p0 = [(''id'', PStr ''entity_0''), (''type'', PStr ''email''), (''value'', PStr ''a@x.io''),
             (''start'', PInt 0), (''end'', PInt 6), (''source'', PStr ''doc1'')]"

definition ent_q0 :: pydict where
  "ent_q0 = [(''id'', PStr ''entity_0''), (''type'', PStr ''email''), (''value'', PStr ''b@y.io''),
             (''start'', PInt 0), (''end'', PInt 6), (''source'', PStr ''doc2'')]"

definition ent_q1 :: pydict where
  "ent_q1 = [(''id'', PStr ''entity_1''), (''type'', PStr ''email''), (''value'', PStr ''c@z.io''),
             (''start'', PInt 7), (''end'', PInt 13), (''source'', PStr ''doc2'')]"

section \<open>Model chaining (backend/main.py)\<close>

text \<open>
  A chunk is one decoded JSON object of the backend's stream. The consumers look at
  three keys: \<open>response\<close> (absent, a string, or a value of another type, kept by the
  name of its type), \<open>done\<close> (read with \<open>chunk.get("done", False)\<close>) and \<open>error\<close>.
\<close>

datatype jval = JStr string | JOther string

record chunk =
  c_response :: "jval option"
  c_done :: bool
  c_error :: "string option"

text \<open>
  What one HTTP exchange with the backend delivers: the lines of the response body, and
  the message of the exception that ended the exchange, if one did. A line is empty,
  fails to parse as JSON, or parses to a chunk.
\<close>

datatype line = EmptyLine | Malformed | Json chunk

record connection =
  conn_lines :: "line list"
  conn_failure :: "string option"

text \<open>
  The backend: the exchange that the \<open>i\<close>-th invocation of a chain, for a model and a
  prompt, gets.
\<close>

type_synonym backend = "nat \<Rightarrow> string \<Rightarrow> string \<Rightarrow> connection"

definition error_event :: "string \<Rightarrow> chunk" where
  "error_event e = \<lparr>c_response = None, c_done = True, c_error = Some e\<rparr>"

fun parsed_chunks :: "line list \<Rightarrow> chunk list" where
  "parsed_chunks [] = []"
| "parsed_chunks (EmptyLine # ls) = parsed_chunks ls"
| "parsed_chunks (Malformed # ls) = parsed_chunks ls"
| "parsed_chunks (Json c # ls) = c # parsed_chunks ls"

text \<open>
  \<open>stream_ollama_response\<close>: the chunks the generator yields. Empty and malformed lines
  are skipped; an exception ends the stream with one error event.
\<close>

definition stream_ollama_response :: "connection \<Rightarrow> chunk list" where
  "stream_ollama_response conn =
     parsed_chunks (conn_lines conn)
     @ (case conn_failure conn of None \<Rightarrow> [] | Some e \<Rightarrow> [error_event e])"

definition concat_type_error :: "string \<Rightarrow> string" where
  "concat_type_error ty =
     ''can only concatenate str (not '' @ [CHR 0x22] @ ty @ [CHR 0x22] @ '') to str''"

text \<open>
  The consuming loop shared by \<open>chain_models\<close>, \<open>generate_parallel\<close> and
  \<open>generate_text\<close>: append the \<open>response\<close> of each chunk, stop after the first chunk
  whose \<open>done\<close> is true. Appending a non-string raises \<open>TypeError\<close> (\<open>Inl\<close>). The \<open>error\<close>
  key is never read.
\<close>

fun accumulate :: "string \<Rightarrow> chunk list \<Rightarrow> string + string" where
  "accumulate response [] = Inr response"
| "accumulate response (c # cs) =
     (case c_response c of
        Some (JOther ty) \<Rightarrow> Inl (concat_type_error ty)
      | Some (JStr s) \<Rightarrow> (if c_done c then Inr (response @ s) else accumulate (response @ s) cs)
      | None \<Rightarrow> (if c_done c then Inr response else accumulate response cs))"

record chain_result =
  cr_model :: string
  cr_input :: string
  cr_output :: string
  cr_timestamp :: int

record chain_request =
  req_models :: "string list"
  req_prompt :: string
  req_chain_type :: string

record chain_response =
  resp_chain_type :: string
  resp_results :: "chain_result list"

text \<open>
  The sequential branch: \<open>i\<close> counts the invocations, \<open>t\<close> the clock readings. An
  exception leaves the loop and becomes the detail of the HTTP 500 answer (\<open>Inl\<close>).
\<close>

fun chain_sequential :: "backend \<Rightarrow> clock \<Rightarrow> nat \<Rightarrow> string list \<Rightarrow> string
    \<Rightarrow> chain_result list \<Rightarrow> nat \<Rightarrow> string + chain_result list" where
  "chain_sequential be clk i [] current_prompt results t = Inr results"
| "chain_sequential be clk i (model # ms) current_prompt results t =
     (case accumulate [] (stream_ollama_response (be i model current_prompt)) of
        Inl err \<Rightarrow> Inl err
      | Inr response \<Rightarrow>
          chain_sequential be clk (Suc i) ms response
            (results @ [\<lparr>cr_model = model, cr_input = current_prompt,
                          cr_output = response, cr_timestamp = clk t\<rparr>])
            (Suc t))"

definition generate_parallel :: "backend \<Rightarrow> nat \<Rightarrow> string \<Rightarrow> string \<Rightarrow> string + string" where
  "generate_parallel be i model prompt =
     accumulate [] (stream_ollama_response (be i model prompt))"

text \<open>
  \<open>asyncio.gather\<close> over tasks whose outcomes are \<open>outs\<close>, completing in the order \<open>ord\<close>
  (task indices). Each completion stores the task's value in the slot of its index; the
  first task that completes with an exception makes \<open>gather\<close> raise it. \<open>gather\<close> returns
  the slots in index order once all are filled; when the order leaves a slot empty,
  \<open>gather\<close> never returns (\<open>None\<close>).
\<close>

fun gather_run :: "nat list \<Rightarrow> (string + string) list \<Rightarrow> string option list
    \<Rightarrow> string + string option list" where
  "gather_run [] outs slots = Inr slots"
| "gather_run (i # ord) outs slots =
     (if i < length outs
      then (case outs ! i of
              Inl err \<Rightarrow> Inl err
            | Inr v \<Rightarrow> gather_run ord outs (slots[i := Some v]))
      else gather_run ord outs slots)"

definition gather :: "nat list \<Rightarrow> (string + string) list \<Rightarrow> (string + string list) option" where
  "gather ord outs =
     (case gather_run ord outs (replicate (length outs) None) of
        Inl err \<Rightarrow> Some (Inl err)
      | Inr slots \<Rightarrow> if None \<in> set slots then None else Some (Inr (map the slots)))"

fun parallel_tasks :: "backend \<Rightarrow> nat \<Rightarrow> string list \<Rightarrow> string \<Rightarrow> (string + string) list" where
  "parallel_tasks be i [] prompt = []"
| "parallel_tasks be i (model # ms) prompt =
     generate_parallel be i model prompt # parallel_tasks be (Suc i) ms prompt"

text \<open>The loop over \<open>zip(request.models, parallel_results)\<close>.\<close>

fun parallel_collect :: "clock \<Rightarrow> string \<Rightarrow> (string \<times> string) list \<Rightarrow> chain_result list \<Rightarrow> nat
    \<Rightarrow> chain_result list" where
  "parallel_collect clk prompt [] results t = results"
| "parallel_collect clk prompt ((model, response) # rest) results t =
     parallel_collect clk prompt rest
       (results @ [\<lparr>cr_model = model, cr_input = prompt,
                     cr_output = response, cr_timestamp = clk t\<rparr>])
       (Suc t)"

text \<open>
  \<open>chain_models\<close>: \<open>Some (Inr resp)\<close> is the JSON answer, \<open>Some (Inl detail)\<close> the HTTP
  500 answer, \<open>None\<close> a call that never returns. A chain type other than \<open>sequential\<close>
  and \<open>parallel\<close> runs neither branch and answers with no results.
\<close>

definition chain_models :: "backend \<Rightarrow> clock \<Rightarrow> nat list \<Rightarrow> chain_request \<Rightarrow> nat
    \<Rightarrow> (string + chain_response) option" where
  "chain_models be clk ord request t =
     (if req_chain_type request = ''sequential'' then
        (case chain_sequential be clk 0 (req_models request) (req_prompt request) [] t of
           Inl err \<Rightarrow> Some (Inl err)
         | Inr results \<Rightarrow>
             Some (Inr \<lparr>resp_chain_type = req_chain_type request, resp_results = results\<rparr>))
      else if req_chain_type request = ''parallel'' then
        (case gather ord (parallel_tasks be 0 (req_models request) (req_prompt request)) of
           None \<Rightarrow> None
         | Some (Inl err) \<Rightarrow> Some (Inl err)
         | Some (Inr parallel_results) \<Rightarrow>
             Some (Inr \<lparr>resp_chain_type = req_chain_type request,
                        resp_results = parallel_collect clk (req_prompt request)
                          (zip (req_models request) parallel_results) [] t\<rparr>))
      else Some (Inr \<lparr>resp_chain_type = req_chain_type request, resp_results = []\<rparr>))"

text \<open>
  Backends for concrete runs. \<open>echo_backend\<close> answers every invocation with one chunk
  holding the model name, a colon and the prompt. \<open>failing_backend\<close> does the same except
  that its first invocation fails before any line arrives.
\<close>

definition echo_connection :: "string \<Rightarrow> string \<Rightarrow> connection" where
  "echo_connection model prompt =
     \<lparr>conn_lines = [Json \<lparr>c_response = Some (JStr (model @ '':'' @ prompt)), c_done = True,
                           c_error = None\<rparr>],
      conn_failure = None\<rparr>"


definition failing_backend :: backend where
  "failing_backend i model prompt =
     (if i = 0 then \<lparr>conn_lines = [], conn_failure = Some ''connection refused''\<rparr>
      else echo_connection model prompt)"

text \<open>The backend whose exchanges are those of \<open>be\<close> with every failure erased.\<close>

definition without_failures :: "backend \<Rightarrow> backend" where
  "without_failures be i model prompt = (be i model prompt)\<lparr>conn_failure := None\<rparr>"

section \<open>The entity extractor (graph/entity\_extractor.py)\<close>

subsection \<open>Regular expressions\<close>

text \<open>
  The patterns of the extractor use character classes, the word boundary \<open>\b\<close>,
  concatenation and greedy repetition with bounds; groups are not captured and there is
  no alternation outside a class. Matching is the backtracking search of \<open>re\<close>: a
  pattern matched at a position yields the candidate end positions in the order in
  which backtracking tries them, and the match is the first candidate. Text is a string
  of 8-bit characters; \<open>\w\<close>, \<open>\d\<close> and \<open>\s\<close> are the ASCII classes, which is how they act
  on ASCII text.
\<close>

datatype citem = CChar char | CRange char char | CDigit | CSpace

definition is_digit :: "char \<Rightarrow> bool" where
  "is_digit c = (48 \<le> (of_char c :: nat) \<and> (of_char c :: nat) \<le> 57)"

definition is_upper :: "char \<Rightarrow> bool" where
  "is_upper c = (65 \<le> (of_char c :: nat) \<and> (of_char c :: nat) \<le> 90)"

definition is_lower :: "char \<Rightarrow> bool" where
  "is_lower c = (97 \<le> (of_char c :: nat) \<and> (of_char c :: nat) \<le> 122)"

definition is_space :: "char \<Rightarrow> bool" where
  "is_space c = ((9 \<le> (of_char c :: nat) \<and> (of_char c :: nat) \<le> 13)
     \<or> (28 \<le> (of_char c :: nat) \<and> (of_char c :: nat) \<le> 32))"

definition is_word_char :: "char \<Rightarrow> bool" where
  "is_word_char c = (is_digit c \<or> is_upper c \<or> is_lower c \<or> c = CHR ''_'')"

fun item_has :: "citem \<Rightarrow> char \<Rightarrow> bool" where
  "item_has (CChar d) c = (c = d)"
| "item_has (CRange lo hi) c =
     ((of_char lo :: nat) \<le> of_char c \<and> (of_char c :: nat) \<le> of_char hi)"
| "item_has CDigit c = is_digit c"
| "item_has CSpace c = is_space c"

text \<open>
  \<open>Chars neg items\<close> is the class \<open>[items]\<close>, or \<open>[^items]\<close> when \<open>neg\<close> holds.
  \<open>Rep lo hi r\<close> is \<open>r{lo,hi}\<close>, with no upper bound when \<open>hi\<close> is \<open>None\<close>: \<open>r*\<close> is
  \<open>Rep 0 None r\<close>, \<open>r+\<close> is \<open>Rep 1 None r\<close>, \<open>r?\<close> is \<open>Rep 0 (Some 1) r\<close>.
\<close>

datatype regex =
    Chars bool "citem list"
  | WordBoundary
  | Seq regex regex
  | Rep nat "nat option" regex

primrec rsize :: "regex \<Rightarrow> nat" where
  "rsize (Chars neg items) = 1"
| "rsize WordBoundary = 1"
| "rsize (Seq a b) = Suc (rsize a + rsize b)"
| "rsize (Rep lo hi r) = Suc (rsize r)"

text \<open>\<open>\b\<close> at position \<open>i\<close>: exactly one of the characters before and after is a word character.\<close>

definition at_boundary :: "string \<Rightarrow> nat \<Rightarrow> bool" where
  "at_boundary s i =
     ((0 < i \<and> i \<le> length s \<and> is_word_char (s ! (i - 1)))
      \<noteq> (i < length s \<and> is_word_char (s ! i)))"

text \<open>
  The end positions of the matches of a pattern that start at \<open>i\<close>, in backtracking
  order. A repetition first tries one more iteration, then to stop; an iteration that
  consumes nothing is not repeated.
\<close>

function rmatch :: "regex \<Rightarrow> string \<Rightarrow> nat \<Rightarrow> nat list" where
  "rmatch (Chars neg items) s i =
     (if i < length s \<and> ((\<exists>it \<in> set items. item_has it (s ! i)) \<noteq> neg) then [Suc i] else [])"
| "rmatch WordBoundary s i = (if at_boundary s i then [i] else [])"
| "rmatch (Seq a b) s i = concat (map (\<lambda>j. rmatch b s j) (rmatch a s i))"
| "rmatch (Rep lo hi r) s i =
     (if hi = Some 0 then [i]
      else concat (map (\<lambda>j. if i < j \<and> j \<le> length s
                               then rmatch (Rep (lo - 1) (map_option (\<lambda>h. h - 1) hi) r) s j
                               else [])
                       (rmatch r s i))
           @ (if lo = 0 then [i] else []))"
  by pat_completeness auto
termination
  by (relation "measures [\<lambda>(r, s, i). rsize r, \<lambda>(r, s, i). length s - i]") auto

text \<open>
  \<open>re.finditer\<close>: scan from the left; at each position take the first candidate; after
  a match continue at its end (one further when the match is empty).
\<close>

function finditer_from :: "regex \<Rightarrow> string \<Rightarrow> nat \<Rightarrow> (nat \<times> nat) list" where
  "finditer_from r s i =
     (if length s < i then []
      else (case rmatch r s i of
              [] \<Rightarrow> finditer_from r s (Suc i)
            | e # _ \<Rightarrow> (i, e) # finditer_from r s (if i < e then e else Suc i)))"
  by pat_completeness auto
termination
  by (relation "measure (\<lambda>(r, s, i). Suc (length s) - i)") auto

text \<open>
  Both functions call themselves under a condition only, so their equations are applied
  by hand and not by the simplifier.
\<close>

declare rmatch.simps [simp del]

declare finditer_from.simps [simp del]

definition finditer :: "regex \<Rightarrow> string \<Rightarrow> (nat \<times> nat) list" where
  "finditer r s = finditer_from r s 0"

text \<open>\<open>match.group()\<close>.\<close>

definition match_group :: "string \<Rightarrow> nat \<times> nat \<Rightarrow> string" where
  "match_group s m = take (snd m - fst m) (drop (fst m) s)"

definition findall :: "regex \<Rightarrow> string \<Rightarrow> string list" where
  "findall r s = map (match_group s) (finditer r s)"

text \<open>A pattern that consumes at least one character whenever it matches.\<close>

primrec consuming :: "regex \<Rightarrow> bool" where
  "consuming (Chars neg items) = True"
| "consuming WordBoundary = False"
| "consuming (Seq a b) = (consuming a \<or> consuming b)"
| "consuming (Rep lo hi r) = (0 < lo \<and> hi \<noteq> Some 0 \<and> consuming r)"

subsection \<open>The patterns\<close>

definition lit :: "char \<Rightarrow> regex" where
  "lit c = Chars False [CChar c]"

fun seqs :: "regex list \<Rightarrow> regex" where
  "seqs [r] = r"
| "seqs (r # rs) = Seq r (seqs rs)"
| "seqs [] = Rep 0 (Some 0) WordBoundary"

definition one_or_more :: "regex \<Rightarrow> regex" where
  "one_or_more r = Rep 1 None r"

definition digit_class :: regex where
  "digit_class = Chars False [CDigit]"

definition lower_class :: regex where
  "lower_class = Chars False [CRange CHR ''a'' CHR ''z'']"

definition upper_class :: regex where
  "upper_class = Chars False [CRange CHR ''A'' CHR ''Z'']"

text \<open>\<^verbatim>\<open>\b[A-Za-z0-9._%+-]+@[A-Za-z0-9.-]+\.[A-Z|a-z]{2,}\b\<close>\<close>

definition email_pattern :: regex where
  "email_pattern = seqs
     [WordBoundary,
      one_or_more (Chars False [CRange CHR ''A'' CHR ''Z'', CRange CHR ''a'' CHR ''z'',
             CRange CHR ''0'' CHR ''9'', CChar CHR ''.'', CChar CHR ''_'', CChar CHR ''%'',
             CChar CHR ''+'', CChar CHR ''-'']),
      lit CHR ''@'',
      one_or_more (Chars False [CRange CHR ''A'' CHR ''Z'', CRange CHR ''a'' CHR ''z'',
             CRange CHR ''0'' CHR ''9'', CChar CHR ''.'', CChar CHR ''-'']),
      lit CHR ''.'',
      Rep 2 None (Chars False [CRange CHR ''A'' CHR ''Z'', CChar CHR ''|'',
             CRange CHR ''a'' CHR ''z'']),
      WordBoundary]"

text \<open>\<^verbatim>\<open>https?://[^\s]+\<close>\<close>

definition url_pattern :: regex where
  "url_pattern = seqs
     [lit CHR ''h'', lit CHR ''t'', lit CHR ''t'', lit CHR ''p'',
      Rep 0 (Some 1) (lit CHR ''s''),
      lit CHR '':'', lit CHR ''/'', lit CHR ''/'',
      one_or_more (Chars True [CSpace])]"

text \<open>\<^verbatim>\<open>\b\d{3}[-.]?\d{3}[-.]?\d{4}\b\<close>\<close>

definition phone_pattern :: regex where
  "phone_pattern = seqs
     [WordBoundary,
      Rep 3 (Some 3) digit_class,
      Rep 0 (Some 1) (Chars False [CChar CHR ''-'', CChar CHR ''.'']),
      Rep 3 (Some 3) digit_class,
      Rep 0 (Some 1) (Chars False [CChar CHR ''-'', CChar CHR ''.'']),
      Rep 4 (Some 4) digit_class,
      WordBoundary]"

text \<open>\<^verbatim>\<open>\b\d{1,2}[/-]\d{1,2}[/-]\d{2,4}\b\<close>\<close>

definition date_pattern :: regex where
  "date_pattern = seqs
     [WordBoundary,
      Rep 1 (Some 2) digit_class,
      Chars False [CChar CHR ''/'', CChar CHR ''-''],
      Rep 1 (Some 2) digit_class,
      Chars False [CChar CHR ''/'', CChar CHR ''-''],
      Rep 2 (Some 4) digit_class,
      WordBoundary]"

text \<open>\<^verbatim>\<open>\$\d+(?:,\d{3})*(?:\.\d{2})?\<close>\<close>

definition money_pattern :: regex where
  "money_pattern = seqs
     [lit CHR ''$'',
      one_or_more digit_class,
      Rep 0 None (Seq (lit CHR '','') (Rep 3 (Some 3) digit_class)),
      Rep 0 (Some 1) (Seq (lit CHR ''.'') (Rep 2 (Some 2) digit_class))]"

text \<open>\<^verbatim>\<open>\b[A-Z][a-z]+(?:\s+[A-Z][a-z]+)*\b\<close>\<close>

definition capitalized_pattern :: regex where
  "capitalized_pattern = seqs
     [WordBoundary,
      upper_class,
      one_or_more lower_class,
      Rep 0 None (seqs [one_or_more (Chars False [CSpace]), upper_class, one_or_more lower_class]),
      WordBoundary]"

text \<open>\<^verbatim>\<open>\b[a-z]{4,}\b\<close>\<close>

definition word_pattern :: regex where
  "word_pattern = seqs [WordBoundary, Rep 4 None lower_class, WordBoundary]"

text \<open>\<open>self.patterns\<close>, in the order in which the dictionary is iterated.\<close>

definition patterns :: "(string \<times> regex) list" where
  "patterns = [(''email'', email_pattern), (''url'', url_pattern), (''phone'', phone_pattern),
               (''date'', date_pattern), (''money'', money_pattern)]"

subsection \<open>Extraction\<close>

record entity =
  e_id :: string
  e_type :: string
  e_value :: string
  e_start :: int
  e_end :: int

text \<open>
  The loops of \<open>extract_entities\<close> thread the list of entities and the counter
  \<open>entity_id\<close>. First the loop over the matches of one pattern.
\<close>

fun add_matches :: "string \<Rightarrow> string \<Rightarrow> (nat \<times> nat) list \<Rightarrow> entity list \<times> nat
    \<Rightarrow> entity list \<times> nat" where
  "add_matches entity_type text [] st = st"
| "add_matches entity_type text (m # ms) (entities, entity_id) =
     add_matches entity_type text ms
       (entities @ [\<lparr>e_id = ''entity_'' @ show_nat entity_id, e_type = entity_type,
                      e_value = match_group text m, e_start = int (fst m), e_end = int (snd m)\<rparr>],
        Suc entity_id)"

fun pattern_loop :: "(string \<times> regex) list \<Rightarrow> string \<Rightarrow> entity list \<times> nat
    \<Rightarrow> entity list \<times> nat" where
  "pattern_loop [] text st = st"
| "pattern_loop ((entity_type, pattern) # ps) text st =
     pattern_loop ps text (add_matches entity_type text (finditer pattern text) st)"

text \<open>The loop over the capitalized matches, with the set \<open>seen_values\<close>.\<close>

fun named_loop :: "string \<Rightarrow> (nat \<times> nat) list \<Rightarrow> string set \<Rightarrow> entity list \<times> nat
    \<Rightarrow> entity list \<times> nat" where
  "named_loop text [] seen_values st = st"
| "named_loop text (m # ms) seen_values (entities, entity_id) =
     (if 2 < length (match_group text m) \<and> match_group text m \<notin> seen_values
      then named_loop text ms (insert (match_group text m) seen_values)
             (entities @ [\<lparr>e_id = ''entity_'' @ show_nat entity_id, e_type = ''named_entity'',
                            e_value = match_group text m, e_start = int (fst m),
                            e_end = int (snd m)\<rparr>],
              Suc entity_id)
      else named_loop text ms seen_values (entities, entity_id))"

definition get_stop_words :: "string list" where
  "get_stop_words =
     [''the'', ''is'', ''at'', ''which'', ''on'', ''and'', ''a'', ''an'', ''as'', ''are'',
      ''was'', ''were'', ''been'', ''be'', ''have'', ''has'', ''had'', ''do'', ''does'',
      ''did'', ''will'', ''would'', ''could'', ''should'', ''may'', ''might'', ''must'',
      ''can'', ''this'', ''that'', ''these'', ''those'', ''i'', ''you'', ''he'', ''she'',
      ''it'', ''we'', ''they'', ''them'', ''their'', ''what'', ''which'', ''who'', ''when'',
      ''where'', ''why'', ''how'', ''all'', ''each'', ''every'', ''both'', ''few'', ''more'',
      ''most'', ''other'', ''some'', ''such'', ''no'', ''nor'', ''not'', ''only'', ''own'',
      ''same'', ''so'', ''than'', ''too'', ''very'', ''from'', ''with'', ''about'', ''into'',
      ''through'', ''during'', ''before'', ''after'', ''above'', ''below'', ''to'', ''from'',
      ''up'', ''down'', ''in'', ''out'', ''off'', ''over'', ''under'', ''again'', ''further'',
      ''then'', ''once'']"

text \<open>\<open>text.lower()\<close> on ASCII.\<close>

definition lower_char :: "char \<Rightarrow> char" where
  "lower_char c = (if is_upper c then char_of ((of_char c :: nat) + 32) else c)"

definition lower_text :: "string \<Rightarrow> string" where
  "lower_text s = map lower_char s"

text \<open>
  \<open>word_freq[word] = word_freq.get(word, 0) + 1\<close> on a dictionary kept in insertion
  order.
\<close>

fun bump_freq :: "string \<Rightarrow> (string \<times> nat) list \<Rightarrow> (string \<times> nat) list" where
  "bump_freq word [] = [(word, 1)]"
| "bump_freq word ((k, n) # rest) =
     (if k = word then (k, Suc n) # rest else (k, n) # bump_freq word rest)"

fun count_words :: "string list \<Rightarrow> (string \<times> nat) list \<Rightarrow> (string \<times> nat) list" where
  "count_words [] word_freq = word_freq"
| "count_words (word # ws) word_freq =
     count_words ws (if word \<notin> set get_stop_words then bump_freq word word_freq else word_freq)"

text \<open>
  \<open>sorted(word_freq.items(), key=lambda x: x[1], reverse=True)\<close>: by falling count,
  items of equal count in their original order.
\<close>

fun insert_desc :: "string \<times> nat \<Rightarrow> (string \<times> nat) list \<Rightarrow> (string \<times> nat) list" where
  "insert_desc x [] = [x]"
| "insert_desc x (y # ys) = (if snd y < snd x then x # y # ys else y # insert_desc x ys)"

definition sorted_by_freq :: "(string \<times> nat) list \<Rightarrow> (string \<times> nat) list" where
  "sorted_by_freq items = foldl (\<lambda>acc x. insert_desc x acc) [] items"

definition extract_key_phrases :: "string \<Rightarrow> nat \<Rightarrow> string list" where
  "extract_key_phrases text max_phrases =
     (let words = findall word_pattern (lower_text text);
          word_freq = count_words words [];
          sorted_words = sorted_by_freq word_freq
      in map fst (take max_phrases sorted_words))"

fun phrase_loop :: "string list \<Rightarrow> entity list \<times> nat \<Rightarrow> entity list \<times> nat" where
  "phrase_loop [] st = st"
| "phrase_loop (phrase # ps) (entities, entity_id) =
     phrase_loop ps
       (entities @ [\<lparr>e_id = ''entity_'' @ show_nat entity_id, e_type = ''key_phrase'',
                      e_value = phrase, e_start = - 1, e_end = - 1\<rparr>],
        Suc entity_id)"

definition extract_entities :: "string \<Rightarrow> entity list" where
  "extract_entities text =
     (let st1 = pattern_loop patterns text ([], 0);
          st2 = named_loop text (finditer capitalized_pattern text) {} st1;
          st3 = phrase_loop (extract_key_phrases text 10) st2
      in fst st3)"

text \<open>The values of the entities of one type, in order.\<close>

definition values_of_type :: "string \<Rightarrow> entity list \<Rightarrow> string list" where
  "values_of_type ty es = map e_value (filter (\<lambda>e. e_type e = ty) es)"

text \<open>Where an entity may sit: a non-empty span of the text, or nowhere.\<close>

definition well_positioned :: "entity \<Rightarrow> bool" where
  "well_positioned e =
     ((0 \<le> e_start e \<and> e_start e < e_end e) \<or> (e_start e = - 1 \<and> e_end e = - 1))"

text \<open>
  The invariant of the extraction loops: a key phrase sits nowhere, any other entity on a
  non-empty span inside the text.
\<close>

definition positioned :: "string \<Rightarrow> entity \<Rightarrow> bool" where
  "positioned text e =
     (if e_type e = ''key_phrase'' then e_start e = - 1 \<and> e_end e = - 1
      else 0 \<le> e_start e \<and> e_start e < e_end e \<and> e_end e \<le> int (length text))"

text \<open>Texts for concrete runs.\<close>

definition contact_text :: string where
  "contact_text =
     ''Contact Alice Smith at alice@example.com or 555-123-4567 on 01/02/2023 for $1,200.00''"

definition short_text :: string where
  "short_text = ''Mail bob@site.org today''"

text \<open>The first and the third entity extracted from \<open>short_text\<close>.\<close>

definition short_email :: entity where
  "short_email = \<lparr>e_id = ''entity_0'', e_type = ''email'', e_value = ''bob@site.org'',
                   e_start = 5, e_end = 17\<rparr>"

definition short_phrase :: entity where
  "short_phrase = \<lparr>e_id = ''entity_2'', e_type = ''key_phrase'', e_value = ''mail'',
                    e_start = - 1, e_end = - 1\<rparr>"

text \<open>A clock for concrete runs: the \<open>n\<close>-th reading is \<open>10 * n\<close>.\<close>

definition sample_clock :: clock where
  "sample_clock n = 10 * int n"

text \<open>Requests for concrete runs.\<close>

definition seq_request :: chain_request where
  "seq_request = \<lparr>req_models = [''m1'', ''m2''], req_prompt = ''P'', req_chain_type = ''sequential''\<rparr>"


section \<open>Properties of the investigative agent\<close>

lemma execute_steps_nil: "r_steps (fst (execute clk task parameters s)) = []"
  by (cases s) (simp add: execute_def Let_def split: prod.splits sum.splits)

text \<open>
  C3. The claim wants the \<open>steps\<close> field of the returned record to hold the entries
  logged during the call, non-empty for every variant. In the code \<open>steps\<close> is set to
  the empty list and never written again; \<open>_log_step\<close> appends to the agent's
  \<open>execution_log\<close>, which \<open>execute\<close> never resets. For a research agent with one model,
  run twice: both records have empty \<open>steps\<close>, the first record's \<open>execution_log\<close> has
  the three entries of the call, and the second record's \<open>execution_log\<close> still begins
  with the three entries of the first call.
\<close>

theorem execute_steps_stay_empty:
  "r_steps (fst (execute sample_clock ''t'' [] (init_agent ''research'' [''m''], 0))) = []
   \<and> map_option (map message)
        (r_execution_log (fst (execute sample_clock ''t'' [] (init_agent ''research'' [''m''], 0))))
      = Some [''Starting research agent'', ''Querying model: m'', ''Research completed'']
   \<and> r_steps (fst (execute sample_clock ''t'' []
        (snd (execute sample_clock ''t'' [] (init_agent ''research'' [''m''], 0))))) = []
   \<and> map_option (map message)
        (r_execution_log (fst (execute sample_clock ''t'' []
          (snd (execute sample_clock ''t'' [] (init_agent ''research'' [''m''], 0))))))
      = Some [''Starting research agent'', ''Querying model: m'', ''Research completed'',
              ''Starting research agent'', ''Querying model: m'', ''Research completed'']"
  by (simp add: execute_def run_variant_def research_agent_def init_agent_def Let_def)

text \<open>
  C9. When the selected variant procedure raises an exception with message \<open>err\<close>,
  \<open>execute\<close> still returns a record: its status is \<open>failed\<close>, its \<open>error\<close> field holds
  \<open>err\<close>, and \<open>end_time\<close> and \<open>duration_seconds\<close> are set (to the clock reading after
  the failure and to its distance from the start time).
\<close>

theorem execute_captures_exception:
  assumes "run_variant clk task parameters (a, Suc t) = (Inl err, s')"
  shows "r_status (fst (execute clk task parameters (a, t))) = ''failed''
       \<and> r_error (fst (execute clk task parameters (a, t))) = Some err
       \<and> r_output (fst (execute clk task parameters (a, t))) = None
       \<and> r_end_time (fst (execute clk task parameters (a, t))) = Some (clk (snd s'))
       \<and> r_duration_seconds (fst (execute clk task parameters (a, t)))
           = Some (clk (snd s') - clk t)"
  using assms by (cases s') (simp add: execute_def Let_def)

text \<open>
  An analysis agent whose \<open>data\<close> parameter is the integer 5 raises \<open>TypeError\<close> while
  slicing it for the first model.
\<close>

theorem execute_captures_exception_witness:
  "run_variant sample_clock ''t'' [(''data'', PInt 5)] (init_agent ''analysis'' [''m''], Suc 0)
     = (Inl (quoted ''int'' @ '' object is not subscriptable''),
        (init_agent ''analysis'' [''m''])
          \<lparr>execution_log := [\<lparr>timestamp = 10, message = ''Starting analysis agent''\<rparr>,
                              \<lparr>timestamp = 20, message = ''Analyzing with model: m''\<rparr>]\<rparr>,
        3)
   \<and> r_status (fst (execute sample_clock ''t'' [(''data'', PInt 5)]
        (init_agent ''analysis'' [''m''], 0))) = ''failed''
   \<and> r_error (fst (execute sample_clock ''t'' [(''data'', PInt 5)]
        (init_agent ''analysis'' [''m''], 0))) = Some (quoted ''int'' @ '' object is not subscriptable'')
   \<and> r_end_time (fst (execute sample_clock ''t'' [(''data'', PInt 5)]
        (init_agent ''analysis'' [''m''], 0))) = Some 30
   \<and> r_duration_seconds (fst (execute sample_clock ''t'' [(''data'', PInt 5)]
        (init_agent ''analysis'' [''m''], 0))) = Some 30"
proof -
  have h: "run_variant sample_clock ''t'' [(''data'', PInt 5)] (init_agent ''analysis'' [''m''], Suc 0)
     = (Inl (quoted ''int'' @ '' object is not subscriptable''),
        (init_agent ''analysis'' [''m''])
          \<lparr>execution_log := [\<lparr>timestamp = 10, message = ''Starting analysis agent''\<rparr>,
                              \<lparr>timestamp = 20, message = ''Analyzing with model: m''\<rparr>]\<rparr>,
        3)"
    by (simp add: run_variant_def analysis_agent_def init_agent_def dget_default_def
        sample_clock_def Let_def numeral_3_eq_3)
  from execute_captures_exception [OF h] h show ?thesis
    by (simp add: sample_clock_def)
qed

text \<open>
  C10. An agent whose type is none of \<open>research\<close>, \<open>analysis\<close>, \<open>summary\<close>,
  \<open>investigation\<close> is not rejected: \<open>execute\<close> returns a record with status
  \<open>completed\<close>, whose output is \<open>Unknown agent type: \<close> followed by the tag, and with
  no \<open>error\<close> key.
\<close>

theorem execute_unknown_agent_type:
  assumes "agent_type a \<notin> {''research'', ''analysis'', ''summary'', ''investigation''}"
  shows "r_status (fst (execute clk task parameters (a, t))) = ''completed''
       \<and> r_output (fst (execute clk task parameters (a, t)))
           = Some (''Unknown agent type: '' @ agent_type a)
       \<and> r_error (fst (execute clk task parameters (a, t))) = None"
  using assms by (simp add: execute_def run_variant_def Let_def)

theorem execute_unknown_agent_type_witness:
  "agent_type (init_agent ''oracle'' [''m''])
     \<notin> {''research'', ''analysis'', ''summary'', ''investigation''}
   \<and> r_status (fst (execute sample_clock ''t'' [] (init_agent ''oracle'' [''m''], 0))) = ''completed''
   \<and> r_output (fst (execute sample_clock ''t'' [] (init_agent ''oracle'' [''m''], 0)))
       = Some ''Unknown agent type: oracle''
   \<and> r_error (fst (execute sample_clock ''t'' [] (init_agent ''oracle'' [''m''], 0))) = None"
proof -
  have h: "agent_type (init_agent ''oracle'' [''m''])
     \<notin> {''research'', ''analysis'', ''summary'', ''investigation''}"
    by (simp add: init_agent_def)
  from execute_unknown_agent_type [OF h, of sample_clock "''t''" "[]" 0] h show ?thesis
    by (simp add: init_agent_def)
qed

section \<open>Properties of the graph builder\<close>


lemma add_node_inv:
  assumes "b_node_ids b = node_id ` set (b_nodes b)" "distinct (map node_id (b_nodes b))"
  shows "b_node_ids (add_node b e) = node_id ` set (b_nodes (add_node b e))
       \<and> distinct (map node_id (b_nodes (add_node b e)))"
  using assms by (auto simp: add_node_def make_node_def)

lemma foldl_add_node_inv:
  assumes "b_node_ids b = node_id ` set (b_nodes b)" "distinct (map node_id (b_nodes b))"
  shows "b_node_ids (foldl add_node b es) = node_id ` set (b_nodes (foldl add_node b es))
       \<and> distinct (map node_id (b_nodes (foldl add_node b es)))"
  using assms
proof (induction es arbitrary: b)
  case Nil
  then show ?case by simp
next
  case (Cons e es)
  from add_node_inv [OF Cons.prems] show ?case
    by (simp add: Cons.IH)
qed

lemma find_append_single:
  "find P (xs @ [x]) = (case find P xs of Some y \<Rightarrow> Some y | None \<Rightarrow> if P x then Some x else None)"
  by (induction xs) auto

lemma find_None_image: "k \<notin> f ` set xs \<Longrightarrow> find (\<lambda>n. f n = k) xs = None"
  by (induction xs) auto

lemma find_Some_image: "k \<in> f ` set xs \<Longrightarrow> find (\<lambda>n. f n = k) xs \<noteq> None"
  by (induction xs) auto

lemma foldl_add_node_find:
  assumes "b_node_ids b = node_id ` set (b_nodes b)"
  shows "find (\<lambda>n. node_id n = k) (b_nodes (foldl add_node b es))
       = (case find (\<lambda>n. node_id n = k) (b_nodes b) of
            Some n \<Rightarrow> Some n
          | None \<Rightarrow> map_option make_node (find (\<lambda>e. node_key e = k) es))"
  using assms
proof (induction es arbitrary: b)
  case Nil
  then show ?case by (simp split: option.splits)
next
  case (Cons e es)
  have inv: "b_node_ids (add_node b e) = node_id ` set (b_nodes (add_node b e))"
    using Cons.prems by (auto simp: add_node_def make_node_def)
  show ?case
  proof (cases "node_key e \<in> b_node_ids b")
    case True
    then have same: "add_node b e = b" by (simp add: add_node_def)
    show ?thesis
    proof (cases "node_key e = k")
      case True
      with \<open>node_key e \<in> b_node_ids b\<close> Cons.prems
      have "find (\<lambda>n. node_id n = k) (b_nodes b) \<noteq> None"
        by (simp add: find_Some_image)
      then show ?thesis using Cons.IH [OF inv] same by (auto split: option.splits)
    next
      case False
      then show ?thesis using Cons.IH [OF inv] same by (auto split: option.splits)
    qed
  next
    case False
    then have nodes': "b_nodes (add_node b e) = b_nodes b @ [make_node e]"
      by (simp add: add_node_def)
    have nk: "node_id (make_node e) = node_key e" by (simp add: make_node_def)
    show ?thesis
    proof (cases "node_key e = k")
      case True
      with False Cons.prems have "find (\<lambda>n. node_id n = k) (b_nodes b) = None"
        by (simp add: find_None_image)
      then show ?thesis using Cons.IH [OF inv] nodes' nk True
        by (simp add: find_append_single)
    next
      case False
      then show ?thesis using Cons.IH [OF inv] nodes' nk
        by (simp add: find_append_single split: option.splits)
    qed
  qed
qed

lemma edges_from_nodes:
  "edges_from e1 rest b = (r, b') \<Longrightarrow> b_nodes b' = b_nodes b \<and> b_node_ids b' = b_node_ids b"
  by (induction rest arbitrary: b) (auto split: sum.splits if_splits)

lemma edges_in_group_nodes:
  "edges_in_group grp b = (r, b') \<Longrightarrow> b_nodes b' = b_nodes b \<and> b_node_ids b' = b_node_ids b"
proof (induction grp arbitrary: b)
  case Nil
  then show ?case by simp
next
  case (Cons e grp)
  then show ?case
    by (auto split: prod.splits option.splits dest: edges_from_nodes)
qed

lemma edges_in_groups_nodes:
  "edges_in_groups gs b = (r, b') \<Longrightarrow> b_nodes b' = b_nodes b \<and> b_node_ids b' = b_node_ids b"
proof (induction gs arbitrary: b)
  case Nil
  then show ?case by simp
next
  case (Cons g gs)
  then show ?case
    by (cases g) (auto split: prod.splits option.splits dest: edges_in_group_nodes)
qed


lemma reset_builder: "b\<lparr>b_nodes := [], b_edges := [], b_node_ids := {}\<rparr> = init_builder"
  by (cases b) (simp add: init_builder_def)

lemma build_graph_nodes:
  assumes "fst (build_graph b es) = Inr g"
  shows "g_nodes g = b_nodes (foldl add_node init_builder es)"
  using assms
  by (auto simp: build_graph_def create_edges_def reset_builder Let_def
      split: prod.splits option.splits dest: edges_in_groups_nodes)

lemma edges_from_origin:
  assumes "edges_from e1 rest b = (r, b')" "ed \<in> set (b_edges b')"
  shows "ed \<in> set (b_edges b)
       \<or> (\<exists>e2. e2 \<in> set rest \<and> ed = make_edge e1 e2 \<and> are_related e1 e2 = Inr True)"
  using assms
proof (induction rest arbitrary: b)
  case Nil
  then show ?case by simp
next
  case (Cons e2 rest)
  show ?case
  proof (cases "are_related e1 e2")
    case (Inl err)
    with Cons.prems show ?thesis by simp
  next
    case (Inr rel)
    with Cons.prems Cons.IH [of "if rel then b\<lparr>b_edges := b_edges b @ [make_edge e1 e2]\<rparr> else b"]
    show ?thesis by (cases rel) auto
  qed
qed

lemma edges_in_group_origin:
  assumes "edges_in_group grp b = (r, b')" "ed \<in> set (b_edges b')"
  shows "ed \<in> set (b_edges b)
       \<or> (\<exists>e1 e2. subseq [e1, e2] grp \<and> ed = make_edge e1 e2 \<and> are_related e1 e2 = Inr True)"
  using assms
proof (induction grp arbitrary: b)
  case Nil
  then show ?case by simp
next
  case (Cons e1 grp)
  obtain r1 b1 where from1: "edges_from e1 grp b = (r1, b1)" by (cases "edges_from e1 grp b")
  have step: "ed \<in> set (b_edges b1) \<Longrightarrow> ?case"
  proof -
    assume "ed \<in> set (b_edges b1)"
    from edges_from_origin [OF from1 this] show ?case
    proof
      assume "ed \<in> set (b_edges b)" then show ?thesis by simp
    next
      assume "\<exists>e2. e2 \<in> set grp \<and> ed = make_edge e1 e2 \<and> are_related e1 e2 = Inr True"
      then obtain e2 where e2: "e2 \<in> set grp" "ed = make_edge e1 e2" "are_related e1 e2 = Inr True"
        by blast
      from e2(1) have "subseq [e1, e2] (e1 # grp)" by (simp add: subseq_singleton_left)
      with e2 show ?thesis by blast
    qed
  qed
  show ?case
  proof (cases r1)
    case (Some err)
    with Cons.prems from1 have "b' = b1" by simp
    with Cons.prems step show ?thesis by simp
  next
    case None
    with Cons.prems from1 have rec: "edges_in_group grp b1 = (r, b')" by simp
    from Cons.IH [OF rec Cons.prems(2)] show ?thesis
    proof
      assume "ed \<in> set (b_edges b1)" then show ?thesis by (rule step)
    next
      assume "\<exists>e1 e2. subseq [e1, e2] grp \<and> ed = make_edge e1 e2 \<and> are_related e1 e2 = Inr True"
      then obtain x y where xy: "subseq [x, y] grp" "ed = make_edge x y" "are_related x y = Inr True"
        by blast
      from xy(1) have "subseq [x, y] (e1 # grp)" by (rule list_emb_Cons)
      with xy show ?thesis by blast
    qed
  qed
qed

lemma edges_in_groups_origin:
  assumes "edges_in_groups gs b = (r, b')" "ed \<in> set (b_edges b')"
  shows "ed \<in> set (b_edges b)
       \<or> (\<exists>k grp e1 e2. (k, grp) \<in> set gs \<and> subseq [e1, e2] grp
             \<and> ed = make_edge e1 e2 \<and> are_related e1 e2 = Inr True)"
  using assms
proof (induction gs arbitrary: b)
  case Nil
  then show ?case by simp
next
  case (Cons g gs)
  obtain k grp where g: "g = (k, grp)" by (cases g)
  obtain r1 b1 where grp1: "edges_in_group grp b = (r1, b1)" by (cases "edges_in_group grp b")
  have step: "ed \<in> set (b_edges b1) \<Longrightarrow> ?case"
  proof -
    assume "ed \<in> set (b_edges b1)"
    from edges_in_group_origin [OF grp1 this] show ?case
      using g by auto
  qed
  show ?case
  proof (cases r1)
    case (Some err)
    with Cons.prems grp1 g have "b' = b1" by simp
    with Cons.prems step show ?thesis by simp
  next
    case None
    with Cons.prems grp1 g have rec: "edges_in_groups gs b1 = (r, b')" by simp
    from Cons.IH [OF rec Cons.prems(2)] show ?thesis
    proof
      assume "ed \<in> set (b_edges b1)" then show ?thesis by (rule step)
    next
      assume "\<exists>k grp e1 e2. (k, grp) \<in> set gs \<and> subseq [e1, e2] grp
             \<and> ed = make_edge e1 e2 \<and> are_related e1 e2 = Inr True"
      then show ?thesis by auto
    qed
  qed
qed

lemma append_to_group_keys: "map fst (append_to_group s e gs) = map fst gs"
  by (induction gs) auto

lemma append_to_group_mem:
  assumes "(k, grp) \<in> set (append_to_group s e gs)" "distinct (map fst gs)"
  shows "(k \<noteq> s \<and> (k, grp) \<in> set gs) \<or> (k = s \<and> (\<exists>g0. (k, g0) \<in> set gs \<and> grp = g0 @ [e]))"
  using assms
proof (induction gs)
  case Nil
  then show ?case by simp
next
  case (Cons g gs)
  then show ?case
    by (cases g) (auto split: if_splits simp: append_to_group_keys rev_image_eqI)
qed

lemma filter_tag_empty:
  "s \<notin> source_tag ` set es \<Longrightarrow> filter (\<lambda>x. source_tag x = s) es = []"
  by (induction es) auto

lemma group_entity_inv:
  assumes "groups_of gs es"
  shows "groups_of (group_entity gs e) (es @ [e])"
proof -
  define s where "s = source_tag e"
  define gs1 where "gs1 = (if s \<notin> fst ` set gs then gs @ [(s, [])] else gs)"
  have ge: "group_entity gs e = append_to_group s e gs1"
    by (simp add: group_entity_def s_def gs1_def Let_def)
  have d1: "distinct (map fst gs1)"
    using assms by (auto simp: groups_of_def gs1_def)
  have k1: "fst ` set gs1 = insert s (source_tag ` set es)"
    using assms by (auto simp: groups_of_def gs1_def)
  have m1: "grp = filter (\<lambda>x. source_tag x = k) es" if "(k, grp) \<in> set gs1" for k grp
  proof (cases "(k, grp) \<in> set gs")
    case True
    with assms show ?thesis by (auto simp: groups_of_def)
  next
    case False
    with that have new: "s \<notin> fst ` set gs" "k = s" "grp = []"
      by (auto simp: gs1_def split: if_splits)
    with assms have "s \<notin> source_tag ` set es" by (simp add: groups_of_def)
    with new show ?thesis by (simp add: filter_tag_empty)
  qed
  have d2: "distinct (map fst (append_to_group s e gs1))"
    using d1 by (simp add: append_to_group_keys)
  have "set (map fst (append_to_group s e gs1)) = set (map fst gs1)"
    by (simp only: append_to_group_keys)
  then have k2: "fst ` set (append_to_group s e gs1) = source_tag ` set (es @ [e])"
    using k1 by (auto simp: s_def)
  have m2: "grp = filter (\<lambda>x. source_tag x = k) (es @ [e])"
    if mem: "(k, grp) \<in> set (append_to_group s e gs1)" for k grp
    using append_to_group_mem [OF mem d1]
  proof
    assume "k \<noteq> s \<and> (k, grp) \<in> set gs1"
    then show ?thesis using m1 by (auto simp: s_def)
  next
    assume "k = s \<and> (\<exists>g0. (k, g0) \<in> set gs1 \<and> grp = g0 @ [e])"
    then show ?thesis using m1 by (auto simp: s_def)
  qed
  show ?thesis
    unfolding groups_of_def ge using d2 k2 m2 by blast
qed

lemma group_by_source_inv: "groups_of (group_by_source es) es"
proof (induction es rule: rev_induct)
  case Nil
  then show ?case by (simp add: group_by_source_def groups_of_def)
next
  case (snoc e es)
  then show ?case by (simp add: group_by_source_def group_entity_inv)
qed

lemma subseq_subset: "subseq xs ys \<Longrightarrow> set xs \<subseteq> set ys"
  by (induction rule: list_emb.induct) auto

lemma subseq_pair_filter:
  assumes "subseq [e1, e2] (filter P es)"
  shows "subseq [e1, e2] es \<and> P e1 \<and> P e2"
proof -
  have "subseq (filter P es) es" by simp
  with assms have "subseq [e1, e2] es" by (rule subseq_order.trans)
  moreover from assms have "set [e1, e2] \<subseteq> set (filter P es)"
    by (rule subseq_subset)
  ultimately show ?thesis by simp
qed

lemma foldl_add_node_edges: "b_edges (foldl add_node b0 es) = b_edges b0"
  by (induction es arbitrary: b0) (auto simp: add_node_def)

lemma foldl_add_node_ids: "b_node_ids (foldl add_node b0 es) = b_node_ids b0 \<union> node_key ` set es"
  by (induction es arbitrary: b0) (auto simp: add_node_def)

lemma build_graph_edge_origin:
  assumes "fst (build_graph b es) = Inr g" "ed \<in> set (g_edges g)"
  shows "\<exists>e1 e2. subseq [e1, e2] es \<and> source_tag e1 = source_tag e2
           \<and> are_related e1 e2 = Inr True \<and> ed = make_edge e1 e2"
proof -
  define b1 where "b1 = foldl add_node init_builder es"
  have e0: "b_edges b1 = []"
    by (simp add: b1_def foldl_add_node_edges init_builder_def)
  obtain r b2 where ce: "edges_in_groups (group_by_source es) b1 = (r, b2)"
    by (cases "edges_in_groups (group_by_source es) b1")
  from assms(1) ce have g: "g_edges g = b_edges b2"
    by (auto simp: build_graph_def create_edges_def reset_builder b1_def Let_def
        split: option.splits)
  with assms(2) have "ed \<in> set (b_edges b2)" by simp
  from edges_in_groups_origin [OF ce this] e0
  obtain k grp e1 e2 where o: "(k, grp) \<in> set (group_by_source es)" "subseq [e1, e2] grp"
      "ed = make_edge e1 e2" "are_related e1 e2 = Inr True"
    by auto
  from group_by_source_inv [of es] o(1) have "grp = filter (\<lambda>e. source_tag e = k) es"
    by (auto simp: groups_of_def)
  with o(2) subseq_pair_filter [of e1 e2 "\<lambda>e. source_tag e = k" es]
  have "subseq [e1, e2] es" "source_tag e1 = k" "source_tag e2 = k" by auto
  with o show ?thesis by (intro exI [of _ e1] exI [of _ e2]) simp
qed

lemma subseq_pair_mem: "subseq [e1, e2] es \<Longrightarrow> e1 \<in> set es \<and> e2 \<in> set es"
  using subseq_subset [of "[e1, e2]" es] by simp

lemma build_graph_node_ids:
  assumes "fst (build_graph b es) = Inr g"
  shows "node_id ` set (g_nodes g) = node_key ` set es"
proof -
  have "b_node_ids init_builder = node_id ` set (b_nodes init_builder)"
       "distinct (map node_id (b_nodes init_builder))"
    by (simp_all add: init_builder_def)
  from foldl_add_node_inv [OF this, of es] build_graph_nodes [OF assms]
  show ?thesis by (simp add: foldl_add_node_ids init_builder_def)
qed

lemma edge_endpoints_known_when_ids_present:
  assumes "fst (build_graph b es) = Inr g" "ed \<in> set (g_edges g)"
    and "\<forall>e \<in> set es. truthy (dget e ''id'')"
  shows "edge_source ed \<in> node_id ` set (g_nodes g) \<and> edge_target ed \<in> node_id ` set (g_nodes g)"
proof -
  from build_graph_edge_origin [OF assms(1,2)]
  obtain e1 e2 where o: "subseq [e1, e2] es" "ed = make_edge e1 e2" by blast
  from subseq_pair_mem [OF o(1)] have m: "e1 \<in> set es" "e2 \<in> set es" by simp_all
  with assms(3) have "node_key e1 = dget e1 ''id''" "node_key e2 = dget e2 ''id''"
    by (simp_all add: node_key_def)
  then have "dget e1 ''id'' \<in> node_key ` set es" "dget e2 ''id'' \<in> node_key ` set es"
    using m by (simp_all add: rev_image_eqI)
  with o(2) show ?thesis
    unfolding build_graph_node_ids [OF assms(1)] by (simp add: make_edge_def)
qed

text \<open>
  Three emails as two extractions number them: one of \<open>doc1\<close>, then two of \<open>doc2\<close>. The
  second entity has the id of the first, so it adds no node.
\<close>

lemma build_graph_shared_ids:
  "fst (build_graph b [ent_p0, ent_q0, ent_q1])
   = Inr \<lparr>g_nodes = [make_node ent_p0, make_node ent_q1],
          g_edges = [make_edge ent_q0 ent_q1], g_node_count = 2, g_edge_count = 1\<rparr>"
proof -
  have k: "node_key ent_p0 = PStr ''entity_0''" "node_key ent_q0 = PStr ''entity_0''"
      "node_key ent_q1 = PStr ''entity_1''"
    by (simp_all add: node_key_def ent_p0_def ent_q0_def ent_q1_def dget_def)
  have n: "add_node (add_node (add_node init_builder ent_p0) ent_q0) ent_q1
      = \<lparr>b_nodes = [make_node ent_p0, make_node ent_q1], b_edges = [],
         b_node_ids = {PStr ''entity_1'', PStr ''entity_0''}\<rparr>"
    by (simp add: add_node_def k init_builder_def)
  have s: "source_tag ent_p0 = PStr ''doc1''" "source_tag ent_q0 = PStr ''doc2''"
      "source_tag ent_q1 = PStr ''doc2''"
    by (simp_all add: source_tag_def ent_p0_def ent_q0_def ent_q1_def dget_default_def)
  have g: "group_by_source [ent_p0, ent_q0, ent_q1]
      = [(PStr ''doc1'', [ent_p0]), (PStr ''doc2'', [ent_q0, ent_q1])]"
    by (simp add: group_by_source_def group_entity_def s)
  have r: "are_related ent_q0 ent_q1 = Inr True"
    by (simp add: are_related_def ent_q0_def ent_q1_def dget_def)
  show ?thesis
    by (simp add: build_graph_def reset_builder create_edges_def g r Let_def n)
qed

text \<open>
  C7, as stated, fails. An edge names its endpoints by id alone. Take one entity of
  \<open>doc1\<close> and two of \<open>doc2\<close>, all of type \<open>email\<close>, with the ids that two separate
  extractions give them: \<open>entity_0\<close>; \<open>entity_0\<close> and \<open>entity_1\<close>. The only pair tested is
  the pair of \<open>doc2\<close>, and its edge runs from \<open>entity_0\<close> to \<open>entity_1\<close>. That is also the
  edge of the first entity of \<open>doc1\<close> and the second of \<open>doc2\<close>, which have the same type and
  different source tags, and in the returned graph it joins the node of \<open>doc1\<close> to the
  node of \<open>doc2\<close>.
\<close>

theorem edge_joins_entities_of_two_sources:
  "fst (build_graph init_builder [ent_p0, ent_q0, ent_q1])
     = Inr \<lparr>g_nodes = [make_node ent_p0, make_node ent_q1],
            g_edges = [make_edge ent_q0 ent_q1], g_node_count = 2, g_edge_count = 1\<rparr>
   \<and> make_edge ent_q0 ent_q1 = make_edge ent_p0 ent_q1
   \<and> edge_source (make_edge ent_q0 ent_q1) = dget ent_p0 ''id''
   \<and> edge_target (make_edge ent_q0 ent_q1) = dget ent_q1 ''id''
   \<and> source_tag ent_p0 \<noteq> source_tag ent_q1
   \<and> dget ent_p0 ''type'' = dget ent_q1 ''type''
   \<and> are_related ent_p0 ent_q1 = Inr True
   \<and> edge_source (make_edge ent_q0 ent_q1) = node_id (make_node ent_p0)
   \<and> edge_target (make_edge ent_q0 ent_q1) = node_id (make_node ent_q1)
   \<and> node_source (make_node ent_p0) = PStr ''doc1''
   \<and> node_source (make_node ent_q1) = PStr ''doc2''"
proof -
  have i: "dget ent_p0 ''id'' = PStr ''entity_0''" "dget ent_q0 ''id'' = PStr ''entity_0''"
      "dget ent_q1 ''id'' = PStr ''entity_1''"
    by (simp_all add: ent_p0_def ent_q0_def ent_q1_def dget_def)
  have k: "node_key ent_p0 = PStr ''entity_0''" "node_key ent_q1 = PStr ''entity_1''"
    by (simp_all add: node_key_def i)
  have s: "source_tag ent_p0 = PStr ''doc1''" "source_tag ent_q1 = PStr ''doc2''"
    by (simp_all add: source_tag_def ent_p0_def ent_q1_def dget_default_def)
  have ns: "node_source (make_node ent_p0) = PStr ''doc1''"
      "node_source (make_node ent_q1) = PStr ''doc2''"
    by (simp_all add: make_node_def ent_p0_def ent_q1_def dget_default_def)
  have ty: "dget ent_p0 ''type'' = dget ent_q1 ''type''"
    by (simp add: ent_p0_def ent_q1_def dget_def)
  have r: "are_related ent_p0 ent_q1 = Inr True"
    by (simp add: are_related_def ty)
  have e: "make_edge ent_q0 ent_q1 = make_edge ent_p0 ent_q1"
    by (simp add: make_edge_def i)
  have es: "edge_source (make_edge ent_q0 ent_q1) = dget ent_p0 ''id''"
      "edge_target (make_edge ent_q0 ent_q1) = dget ent_q1 ''id''"
    by (simp_all add: make_edge_def i)
  have en: "edge_source (make_edge ent_q0 ent_q1) = node_id (make_node ent_p0)"
      "edge_target (make_edge ent_q0 ent_q1) = node_id (make_node ent_q1)"
    by (simp_all add: make_edge_def make_node_def i k)
  have neq: "source_tag ent_p0 \<noteq> source_tag ent_q1" by (simp add: s)
  show ?thesis
    by (intro conjI build_graph_shared_ids e es neq ty r en ns)
qed

text \<open>
  C7, amended. Every edge of a returned graph was made from two entities of the input,
  the first before the second, that carry the same source tag and are related. When the
  ids of the input entities are pairwise distinct, any two entities whose ids are the
  endpoints of an edge carry the same source tag.
\<close>

theorem edges_within_source_group:
  assumes "fst (build_graph b es) = Inr g" "ed \<in> set (g_edges g)"
  shows "(\<exists>e1 e2. subseq [e1, e2] es \<and> source_tag e1 = source_tag e2
            \<and> are_related e1 e2 = Inr True \<and> ed = make_edge e1 e2)
       \<and> (inj_on (\<lambda>e. dget e ''id'') (set es) \<longrightarrow>
            (\<forall>x \<in> set es. \<forall>y \<in> set es.
               edge_source ed = dget x ''id'' \<and> edge_target ed = dget y ''id''
               \<longrightarrow> source_tag x = source_tag y))"
proof -
  from build_graph_edge_origin [OF assms]
  obtain e1 e2 where o: "subseq [e1, e2] es" "source_tag e1 = source_tag e2"
      "are_related e1 e2 = Inr True" "ed = make_edge e1 e2"
    by blast
  from subseq_pair_mem [OF o(1)] have m: "e1 \<in> set es" "e2 \<in> set es" by simp_all
  have "source_tag x = source_tag y"
    if "inj_on (\<lambda>e. dget e ''id'') (set es)" "x \<in> set es" "y \<in> set es"
      "edge_source ed = dget x ''id''" "edge_target ed = dget y ''id''" for x y
  proof -
    from that o(4) have "dget e1 ''id'' = dget x ''id''" "dget e2 ''id'' = dget y ''id''"
      by (simp_all add: make_edge_def)
    with that(1-3) m have "e1 = x" "e2 = y" by (auto dest: inj_onD)
    with o(2) show ?thesis by simp
  qed
  with o show ?thesis by blast
qed



lemma build_graph_no_id:
  "fst (build_graph b [ent_x, ent_y])
   = Inr \<lparr>g_nodes = [make_node ent_x, make_node ent_y],
          g_edges = [make_edge ent_x ent_y], g_node_count = 2, g_edge_count = 1\<rparr>"
proof -
  have k: "node_key ent_x = PStr ''x''" "node_key ent_y = PStr ''y''"
    by (simp_all add: node_key_def ent_x_def ent_y_def dget_def dget_default_def)
  have n: "add_node (add_node init_builder ent_x) ent_y
      = \<lparr>b_nodes = [make_node ent_x, make_node ent_y], b_edges = [],
         b_node_ids = {PStr ''y'', PStr ''x''}\<rparr>"
    by (simp add: add_node_def k init_builder_def)
  have g: "group_by_source [ent_x, ent_y] = [(PStr ''default'', [ent_x, ent_y])]"
    by (simp add: group_by_source_def group_entity_def source_tag_def ent_x_def ent_y_def
        dget_default_def)
  have r: "are_related ent_x ent_y = Inr True"
    by (simp add: are_related_def ent_x_def ent_y_def dget_def)
  show ?thesis
    by (simp add: build_graph_def reset_builder create_edges_def g r Let_def n)
qed

text \<open>
  C4. The claim wants both endpoints of every returned edge to be ids of returned nodes,
  also for entities without an \<open>id\<close>. \<open>_add_node\<close> falls back to the entity's value
  when the id is absent, \<open>_create_edges\<close> does not: for two entities that carry only a
  value the nodes get the ids \<open>x\<close> and \<open>y\<close>, and the edge between them runs from
  \<open>None\<close> to \<open>None\<close> under the id \<open>None_None\<close>.
\<close>

theorem edge_endpoints_not_nodes_without_id:
  "map node_id (g_nodes (projr (fst (build_graph init_builder [ent_x, ent_y]))))
     = [PStr ''x'', PStr ''y'']
   \<and> map edge_source (g_edges (projr (fst (build_graph init_builder [ent_x, ent_y])))) = [PNone]
   \<and> map edge_target (g_edges (projr (fst (build_graph init_builder [ent_x, ent_y])))) = [PNone]
   \<and> map edge_id (g_edges (projr (fst (build_graph init_builder [ent_x, ent_y])))) = [''None_None'']"
proof -
  have k: "node_key ent_x = PStr ''x''" "node_key ent_y = PStr ''y''"
    by (simp_all add: node_key_def ent_x_def ent_y_def dget_def dget_default_def)
  have i: "dget ent_x ''id'' = PNone" "dget ent_y ''id'' = PNone"
    by (simp_all add: ent_x_def ent_y_def dget_def)
  show ?thesis
    unfolding build_graph_no_id by (simp add: make_node_def make_edge_def k i)
qed

lemma build_graph_duplicate_id:
  "fst (build_graph b [ent_A_x, ent_A_y])
   = Inr \<lparr>g_nodes = [make_node ent_A_x],
          g_edges = [make_edge ent_A_x ent_A_y], g_node_count = 1, g_edge_count = 1\<rparr>"
proof -
  have k: "node_key ent_A_x = PStr ''A''" "node_key ent_A_y = PStr ''A''"
    by (simp_all add: node_key_def ent_A_x_def ent_A_y_def dget_def dget_default_def)
  have n: "add_node (add_node init_builder ent_A_x) ent_A_y
      = \<lparr>b_nodes = [make_node ent_A_x], b_edges = [], b_node_ids = {PStr ''A''}\<rparr>"
    by (simp add: add_node_def k init_builder_def)
  have g: "group_by_source [ent_A_x, ent_A_y] = [(PStr ''default'', [ent_A_x, ent_A_y])]"
    by (simp add: group_by_source_def group_entity_def source_tag_def ent_A_x_def ent_A_y_def
        dget_default_def)
  have r: "are_related ent_A_x ent_A_y = Inr True"
    by (simp add: are_related_def ent_A_x_def ent_A_y_def dget_def)
  show ?thesis
    by (simp add: build_graph_def reset_builder create_edges_def g r Let_def n)
qed

text \<open>
  C5. In a graph returned by \<open>build_graph\<close> the node ids are pairwise distinct, and for
  every key the node with that id, if any, is the node made from the first entity with
  that key (and there is one exactly when some entity has the key). Building from the
  two entities with id \<open>A\<close> and values \<open>x\<close> and \<open>y\<close> returns a graph with the single node
  \<open>A\<close>, labelled \<open>x\<close>.
\<close>

theorem build_graph_first_wins:
  "(fst (build_graph b es) = Inr g \<longrightarrow>
      distinct (map node_id (g_nodes g))
      \<and> (\<forall>k. find (\<lambda>n. node_id n = k) (g_nodes g)
              = map_option make_node (find (\<lambda>e. node_key e = k) es)))
   \<and> map node_id (g_nodes (projr (fst (build_graph b [ent_A_x, ent_A_y])))) = [PStr ''A'']
   \<and> map node_label (g_nodes (projr (fst (build_graph b [ent_A_x, ent_A_y])))) = [PStr ''x'']"
proof -
  have i: "b_node_ids init_builder = node_id ` set (b_nodes init_builder)"
       "distinct (map node_id (b_nodes init_builder))"
    by (simp_all add: init_builder_def)
  have "distinct (map node_id (g_nodes g))
      \<and> (\<forall>k. find (\<lambda>n. node_id n = k) (g_nodes g)
              = map_option make_node (find (\<lambda>e. node_key e = k) es))"
    if r: "fst (build_graph b es) = Inr g"
  proof -
    have n: "g_nodes g = b_nodes (foldl add_node init_builder es)"
      using r by (rule build_graph_nodes)
    from foldl_add_node_inv [OF i, of es] have d: "distinct (map node_id (g_nodes g))"
      by (simp add: n)
    have "find (\<lambda>n. node_id n = k) (g_nodes g)
        = map_option make_node (find (\<lambda>e. node_key e = k) es)" for k
      unfolding n foldl_add_node_find [OF i(1)] by (simp add: init_builder_def)
    with d show ?thesis by simp
  qed
  moreover have "map node_id (g_nodes (projr (fst (build_graph b [ent_A_x, ent_A_y])))) = [PStr ''A'']"
    unfolding build_graph_duplicate_id
    by (simp add: make_node_def node_key_def ent_A_x_def dget_def)
  moreover have "map node_label (g_nodes (projr (fst (build_graph b [ent_A_x, ent_A_y])))) = [PStr ''x'']"
    unfolding build_graph_duplicate_id
    by (simp add: make_node_def ent_A_x_def dget_default_def)
  ultimately show ?thesis by simp
qed

theorem build_graph_first_wins_witness:
  "fst (build_graph init_builder [ent_A_x, ent_A_y])
     = Inr \<lparr>g_nodes = [make_node ent_A_x], g_edges = [make_edge ent_A_x ent_A_y],
            g_node_count = 1, g_edge_count = 1\<rparr>
   \<and> distinct (map node_id [make_node ent_A_x])
   \<and> find (\<lambda>n. node_id n = PStr ''A'') [make_node ent_A_x]
       = map_option make_node (find (\<lambda>e. node_key e = PStr ''A'') [ent_A_x, ent_A_y])
   \<and> node_label (make_node ent_A_x) = PStr ''x''"
proof -
  have h: "fst (build_graph init_builder [ent_A_x, ent_A_y])
     = Inr \<lparr>g_nodes = [make_node ent_A_x], g_edges = [make_edge ent_A_x ent_A_y],
            g_node_count = 1, g_edge_count = 1\<rparr>"
    by (rule build_graph_duplicate_id)
  note t = build_graph_first_wins [of init_builder "[ent_A_x, ent_A_y]"
      "\<lparr>g_nodes = [make_node ent_A_x], g_edges = [make_edge ent_A_x ent_A_y],
            g_node_count = 1, g_edge_count = 1\<rparr>"]
  from t h have d: "distinct (map node_id (g_nodes \<lparr>g_nodes = [make_node ent_A_x],
            g_edges = [make_edge ent_A_x ent_A_y], g_node_count = 1, g_edge_count = 1\<rparr>))"
    by blast
  from t h have f: "\<forall>k. find (\<lambda>n. node_id n = k) (g_nodes \<lparr>g_nodes = [make_node ent_A_x],
            g_edges = [make_edge ent_A_x ent_A_y], g_node_count = 1, g_edge_count = 1\<rparr>)
       = map_option make_node (find (\<lambda>e. node_key e = k) [ent_A_x, ent_A_y])"
    by blast
  from t have l: "map node_label (g_nodes (projr (fst (build_graph init_builder [ent_A_x, ent_A_y]))))
       = [PStr ''x'']"
    by blast
  from l have "node_label (make_node ent_A_x) = PStr ''x''"
    unfolding h by simp
  moreover from d have "distinct (map node_id [make_node ent_A_x])" by simp
  moreover from f [THEN spec, of "PStr ''A''"]
  have "find (\<lambda>n. node_id n = PStr ''A'') [make_node ent_A_x]
       = map_option make_node (find (\<lambda>e. node_key e = PStr ''A'') [ent_A_x, ent_A_y])"
    by (simp only: graph.simps)
  ultimately show ?thesis using h by blast
qed

lemma build_graph_two_sources:
  "fst (build_graph b [doc_a, doc_b, doc_c])
   = Inr \<lparr>g_nodes = [make_node doc_a, make_node doc_b, make_node doc_c],
          g_edges = [make_edge doc_a doc_c], g_node_count = 3, g_edge_count = 1\<rparr>"
proof -
  have k: "node_key doc_a = PStr ''a''" "node_key doc_b = PStr ''b''" "node_key doc_c = PStr ''c''"
    by (simp_all add: node_key_def doc_a_def doc_b_def doc_c_def dget_def)
  have n: "add_node (add_node (add_node init_builder doc_a) doc_b) doc_c
      = \<lparr>b_nodes = [make_node doc_a, make_node doc_b, make_node doc_c], b_edges = [],
         b_node_ids = {PStr ''c'', PStr ''b'', PStr ''a''}\<rparr>"
    by (simp add: add_node_def k init_builder_def)
  have s: "source_tag doc_a = PStr ''doc1''" "source_tag doc_b = PStr ''doc2''"
      "source_tag doc_c = PStr ''doc1''"
    by (simp_all add: source_tag_def doc_a_def doc_b_def doc_c_def dget_default_def)
  have g: "group_by_source [doc_a, doc_b, doc_c]
      = [(PStr ''doc1'', [doc_a, doc_c]), (PStr ''doc2'', [doc_b])]"
    by (simp add: group_by_source_def group_entity_def s)
  have r: "are_related doc_a doc_c = Inr True"
    by (simp add: are_related_def doc_a_def doc_c_def dget_def)
  show ?thesis
    by (simp add: build_graph_def reset_builder create_edges_def g r Let_def n)
qed

theorem edges_within_source_group_witness:
  "fst (build_graph init_builder [doc_a, doc_b, doc_c])
     = Inr \<lparr>g_nodes = [make_node doc_a, make_node doc_b, make_node doc_c],
            g_edges = [make_edge doc_a doc_c], g_node_count = 3, g_edge_count = 1\<rparr>
   \<and> (\<exists>e1 e2. subseq [e1, e2] [doc_a, doc_b, doc_c] \<and> source_tag e1 = source_tag e2
         \<and> are_related e1 e2 = Inr True \<and> make_edge doc_a doc_c = make_edge e1 e2)
   \<and> source_tag doc_a = source_tag doc_c
   \<and> source_tag doc_a \<noteq> source_tag doc_b
   \<and> dget doc_a ''type'' = dget doc_b ''type''"
proof -
  let ?g = "\<lparr>g_nodes = [make_node doc_a, make_node doc_b, make_node doc_c],
            g_edges = [make_edge doc_a doc_c], g_node_count = 3, g_edge_count = 1\<rparr>"
  have h1: "fst (build_graph init_builder [doc_a, doc_b, doc_c]) = Inr ?g"
    by (rule build_graph_two_sources)
  have h2: "make_edge doc_a doc_c \<in> set (g_edges ?g)" by simp
  have inj: "inj_on (\<lambda>e. dget e ''id'') (set [doc_a, doc_b, doc_c])"
    by (simp add: doc_a_def doc_b_def doc_c_def dget_def)
  have src: "edge_source (make_edge doc_a doc_c) = dget doc_a ''id''"
      "edge_target (make_edge doc_a doc_c) = dget doc_c ''id''"
    by (simp_all add: make_edge_def)
  from edges_within_source_group [OF h1 h2] inj src
  have "(\<exists>e1 e2. subseq [e1, e2] [doc_a, doc_b, doc_c] \<and> source_tag e1 = source_tag e2
         \<and> are_related e1 e2 = Inr True \<and> make_edge doc_a doc_c = make_edge e1 e2)"
    and "source_tag doc_a = source_tag doc_c"
    by simp_all
  moreover have "source_tag doc_a \<noteq> source_tag doc_b" "dget doc_a ''type'' = dget doc_b ''type''"
    by (simp_all add: source_tag_def doc_a_def doc_b_def dget_default_def dget_def)
  ultimately show ?thesis using h1 by blast
qed

section \<open>Properties of model chaining\<close>

lemma accumulate_error_event: "accumulate acc (cs @ [error_event e]) = accumulate acc cs"
  by (induction cs arbitrary: acc) (auto simp: error_event_def split: option.splits jval.splits)

lemma stream_without_failure:
  "accumulate acc (stream_ollama_response conn)
   = accumulate acc (stream_ollama_response (conn\<lparr>conn_failure := None\<rparr>))"
  by (cases "conn_failure conn") (simp_all add: stream_ollama_response_def accumulate_error_event)

lemma chain_sequential_without_failures:
  "chain_sequential (without_failures be) clk i ms cur rs t = chain_sequential be clk i ms cur rs t"
proof (induction ms arbitrary: i cur rs t)
  case Nil
  then show ?case by simp
next
  case (Cons m ms)
  have "accumulate [] (stream_ollama_response (without_failures be i m cur))
      = accumulate [] (stream_ollama_response (be i m cur))"
    unfolding without_failures_def by (rule stream_without_failure [symmetric])
  then show ?case by (simp add: Cons.IH split: sum.splits)
qed

lemma accumulate_stream_lines:
  "accumulate acc (stream_ollama_response conn) = accumulate acc (parsed_chunks (conn_lines conn))"
  by (cases "conn_failure conn") (simp_all add: stream_ollama_response_def accumulate_error_event)

lemma chain_sequential_structure:
  assumes "chain_sequential be clk i ms cur rs t = Inr out"
  shows "\<exists>new. out = rs @ new \<and> map cr_model new = ms
      \<and> (\<forall>k < length ms.
            cr_input (new ! k) = (if k = 0 then cur else cr_output (new ! (k - 1)))
          \<and> accumulate [] (parsed_chunks (conn_lines (be (i + k) (ms ! k) (cr_input (new ! k)))))
              = Inr (cr_output (new ! k)))"
  using assms
proof (induction ms arbitrary: i cur rs t out)
  case Nil
  then show ?case by simp
next
  case (Cons m ms)
  from Cons.prems obtain response where
    acc0: "accumulate [] (stream_ollama_response (be i m cur)) = Inr response"
    and rec: "chain_sequential be clk (Suc i) ms response
       (rs @ [\<lparr>cr_model = m, cr_input = cur, cr_output = response, cr_timestamp = clk t\<rparr>])
       (Suc t) = Inr out"
    by (auto split: sum.splits)
  from acc0 have acc: "accumulate [] (parsed_chunks (conn_lines (be i m cur))) = Inr response"
    by (simp only: accumulate_stream_lines)
  define r where "r = \<lparr>cr_model = m, cr_input = cur, cr_output = response, cr_timestamp = clk t\<rparr>"
  from Cons.IH [OF rec] obtain new where
    new: "out = (rs @ [r]) @ new" "map cr_model new = ms"
    and steps: "\<forall>k < length ms.
            cr_input (new ! k) = (if k = 0 then response else cr_output (new ! (k - 1)))
          \<and> accumulate [] (parsed_chunks (conn_lines (be (Suc i + k) (ms ! k) (cr_input (new ! k)))))
              = Inr (cr_output (new ! k))"
    unfolding r_def by blast
  have stepk: "cr_input ((r # new) ! k) = (if k = 0 then cur else cr_output ((r # new) ! (k - 1)))
      \<and> accumulate [] (parsed_chunks (conn_lines
            (be (i + k) ((m # ms) ! k) (cr_input ((r # new) ! k)))))
          = Inr (cr_output ((r # new) ! k))" if k: "k < length (m # ms)" for k
  proof (cases k)
    case 0
    then show ?thesis using acc by (simp add: r_def)
  next
    case (Suc j)
    with k have j: "j < length ms" by simp
    note sj = steps [rule_format, OF j]
    note A = sj [THEN conjunct1] and B = sj [THEN conjunct2]
    have first: "cr_input (new ! j) = cr_output ((r # new) ! j)"
      using A by (cases j) (simp_all add: r_def)
    from B have second: "accumulate [] (parsed_chunks (conn_lines
          (be (i + Suc j) (ms ! j) (cr_input (new ! j))))) = Inr (cr_output (new ! j))"
      by simp
    have "(r # new) ! Suc j = new ! j" "(m # ms) ! Suc j = ms ! j" "Suc j - 1 = j"
      by simp_all
    with first second show ?thesis
      unfolding Suc by (simp only: nat.simps if_False)
  qed
  have o: "out = rs @ (r # new)" and mm: "map cr_model (r # new) = m # ms"
    using new by (simp_all add: r_def)
  show ?case
  proof (intro exI [of _ "r # new"] conjI allI impI)
    show "out = rs @ r # new" by (rule o)
    show "map cr_model (r # new) = m # ms" by (rule mm)
  next
    fix k assume "k < length (m # ms)"
    then show "cr_input ((r # new) ! k) = (if k = 0 then cur else cr_output ((r # new) ! (k - 1)))"
      by (rule stepk [THEN conjunct1])
  next
    fix k assume "k < length (m # ms)"
    then show "accumulate [] (parsed_chunks (conn_lines
            (be (i + k) ((m # ms) ! k) (cr_input ((r # new) ! k)))))
          = Inr (cr_output ((r # new) ! k))"
      by (rule stepk [THEN conjunct2])
  qed
qed

lemma failing_chain_run:
  "chain_models failing_backend sample_clock ord seq_request 0
   = Some (Inr \<lparr>resp_chain_type = ''sequential'',
                resp_results =
                  [\<lparr>cr_model = ''m1'', cr_input = ''P'', cr_output = [], cr_timestamp = 0\<rparr>,
                   \<lparr>cr_model = ''m2'', cr_input = [], cr_output = ''m2:'', cr_timestamp = 10\<rparr>]\<rparr>)"
  by (simp add: chain_models_def seq_request_def failing_backend_def echo_connection_def
      stream_ollama_response_def error_event_def sample_clock_def)

text \<open>
  C1, as stated, fails. The first invocation of \<open>failing_backend\<close> ends at once with an
  error event. \<open>chain_models\<close> answers as for a success: the first step is recorded with
  the empty string as output, and the second model is invoked with the empty string as
  its prompt; the error message appears nowhere in the answer.
\<close>

theorem sequential_chain_error_fed_forward:
  "stream_ollama_response (failing_backend 0 ''m1'' ''P'') = [error_event ''connection refused'']
   \<and> chain_models failing_backend sample_clock [] seq_request 0
     = Some (Inr \<lparr>resp_chain_type = ''sequential'',
                  resp_results =
                    [\<lparr>cr_model = ''m1'', cr_input = ''P'', cr_output = [], cr_timestamp = 0\<rparr>,
                     \<lparr>cr_model = ''m2'', cr_input = [], cr_output = ''m2:'', cr_timestamp = 10\<rparr>]\<rparr>)"
  by (simp add: failing_chain_run) (simp add: failing_backend_def stream_ollama_response_def)

text \<open>
  C1, amended. A sequential chain never reads the \<open>error\<close> key: its answer is the one it
  gives when every failure of the backend is erased, and it always answers. When it
  answers with results, there is one result per model, in order; the input of the first
  is the request's prompt and the input of each later step is the output of the step
  before it; the output of a step is the text accumulated from the lines that arrived
  before any failure.
\<close>

theorem sequential_chain_ignores_stream_errors:
  assumes "req_chain_type req = ''sequential''"
  shows "chain_models be clk ord req t = chain_models (without_failures be) clk ord req t
       \<and> chain_models be clk ord req t \<noteq> None
       \<and> (chain_models be clk ord req t = Some (Inr resp) \<longrightarrow>
            map cr_model (resp_results resp) = req_models req
          \<and> (\<forall>k < length (req_models req).
               cr_input (resp_results resp ! k)
                 = (if k = 0 then req_prompt req else cr_output (resp_results resp ! (k - 1)))
             \<and> accumulate [] (parsed_chunks (conn_lines
                   (be k (req_models req ! k) (cr_input (resp_results resp ! k)))))
                 = Inr (cr_output (resp_results resp ! k))))"
proof -
  have a: "chain_models be clk ord req t = chain_models (without_failures be) clk ord req t"
    using assms by (simp add: chain_models_def chain_sequential_without_failures)
  have b: "chain_models be clk ord req t \<noteq> None"
    using assms by (simp add: chain_models_def split: sum.splits)
  have c: "map cr_model (resp_results resp) = req_models req
          \<and> (\<forall>k < length (req_models req).
               cr_input (resp_results resp ! k)
                 = (if k = 0 then req_prompt req else cr_output (resp_results resp ! (k - 1)))
             \<and> accumulate [] (parsed_chunks (conn_lines
                   (be k (req_models req ! k) (cr_input (resp_results resp ! k)))))
                 = Inr (cr_output (resp_results resp ! k)))"
    if r: "chain_models be clk ord req t = Some (Inr resp)"
  proof -
    from r assms have
      "chain_sequential be clk 0 (req_models req) (req_prompt req) [] t = Inr (resp_results resp)"
      by (auto simp: chain_models_def split: sum.splits)
    from chain_sequential_structure [OF this] obtain new where
      n: "resp_results resp = [] @ new" and m: "map cr_model new = req_models req"
      and st: "\<forall>k < length (req_models req).
            cr_input (new ! k) = (if k = 0 then req_prompt req else cr_output (new ! (k - 1)))
          \<and> accumulate [] (parsed_chunks (conn_lines
                (be (0 + k) (req_models req ! k) (cr_input (new ! k)))))
              = Inr (cr_output (new ! k))"
      by blast
    from n have eq: "new = resp_results resp" by simp
    from m st show ?thesis
      unfolding eq add_0_left by (rule conjI)
  qed
  from a b c show ?thesis by blast
qed

theorem sequential_chain_ignores_stream_errors_witness:
  "req_chain_type seq_request = ''sequential''
   \<and> conn_failure (failing_backend 0 ''m1'' ''P'') = Some ''connection refused''
   \<and> chain_models failing_backend sample_clock [] seq_request 0
       = chain_models (without_failures failing_backend) sample_clock [] seq_request 0
   \<and> chain_models failing_backend sample_clock [] seq_request 0
     = Some (Inr \<lparr>resp_chain_type = ''sequential'',
                  resp_results =
                    [\<lparr>cr_model = ''m1'', cr_input = ''P'', cr_output = [], cr_timestamp = 0\<rparr>,
                     \<lparr>cr_model = ''m2'', cr_input = [], cr_output = ''m2:'', cr_timestamp = 10\<rparr>]\<rparr>)"
proof -
  have h: "req_chain_type seq_request = ''sequential''" by (simp add: seq_request_def)
  have f: "conn_failure (failing_backend 0 ''m1'' ''P'') = Some ''connection refused''"
    by (simp add: failing_backend_def)
  from sequential_chain_ignores_stream_errors [OF h, of failing_backend sample_clock "[]" 0]
  have "chain_models failing_backend sample_clock [] seq_request 0
       = chain_models (without_failures failing_backend) sample_clock [] seq_request 0"
    by blast
  with h f failing_chain_run [of "[]"] show ?thesis by blast
qed


















section \<open>Properties of the entity extractor\<close>

text \<open>
  A match that starts inside the text ends inside the text, not before its start, and a
  consuming pattern ends after its start; so every span of \<open>finditer\<close> for a consuming
  pattern is non-empty and inside the text.
\<close>

lemma rmatch_bounds:
  "j \<in> set (rmatch r s i) \<Longrightarrow> i \<le> length s \<Longrightarrow> i \<le> j \<and> j \<le> length s"
proof (induction r s i arbitrary: j rule: rmatch.induct)
  case (1 neg items s i)
  then show ?case by (auto simp: rmatch.simps(1) split: if_splits)
next
  case (2 s i)
  then show ?case by (auto simp: rmatch.simps(2) split: if_splits)
next
  case (3 a b s i)
  from "3.prems"(1) obtain k where k: "k \<in> set (rmatch a s i)" and j: "j \<in> set (rmatch b s k)"
    unfolding rmatch.simps(3) by auto
  from "3.IH"(1) [OF k "3.prems"(2)] have ik: "i \<le> k" "k \<le> length s" by simp_all
  from "3.IH"(2) [OF k j ik(2)] ik show ?case by simp
next
  case (4 lo hi r s i)
  show ?case
  proof (cases "hi = Some 0")
    case True
    with "4.prems" show ?thesis by (simp add: rmatch.simps(4))
  next
    case False
    from "4.prems"(1) have "j \<in> set (concat (map (\<lambda>j. if i < j \<and> j \<le> length s
                               then rmatch (Rep (lo - 1) (map_option (\<lambda>h. h - 1) hi) r) s j
                               else [])
                       (rmatch r s i))
           @ (if lo = 0 then [i] else []))"
      unfolding rmatch.simps(4) [of lo hi r s i] using False by simp
    then consider (stop) "j = i"
      | (more) k where "k \<in> set (rmatch r s i)" "i < k" "k \<le> length s"
          "j \<in> set (rmatch (Rep (lo - 1) (map_option (\<lambda>h. h - 1) hi) r) s k)"
      by (auto split: if_splits)
    then show ?thesis
    proof cases
      case stop
      with "4.prems" show ?thesis by simp
    next
      case more
      from "4.IH"(2) [OF False more(1) _ more(4) more(3)] more(2,3)
      show ?thesis by simp
    qed
  qed
qed

lemma rmatch_consuming:
  "consuming r \<Longrightarrow> j \<in> set (rmatch r s i) \<Longrightarrow> i \<le> length s \<Longrightarrow> i < j"
proof (induction r arbitrary: i j)
  case (Chars neg items)
  then show ?case by (auto simp: rmatch.simps(1) split: if_splits)
next
  case WordBoundary
  then show ?case by simp
next
  case (Seq a b)
  from Seq.prems(2) obtain k where k: "k \<in> set (rmatch a s i)" and j: "j \<in> set (rmatch b s k)"
    unfolding rmatch.simps(3) by auto
  from rmatch_bounds [OF k Seq.prems(3)] have ik: "i \<le> k" "k \<le> length s" by simp_all
  from rmatch_bounds [OF j ik(2)] have kj: "k \<le> j" by simp
  from Seq.prems(1) have "consuming a \<or> consuming b" by simp
  then show ?case
  proof
    assume "consuming a"
    from Seq.IH(1) [OF this k Seq.prems(3)] kj show ?thesis by simp
  next
    assume "consuming b"
    from Seq.IH(2) [OF this j ik(2)] ik(1) show ?thesis by simp
  qed
next
  case (Rep lo hi r)
  from Rep.prems(1) have lo: "0 < lo" and hi: "hi \<noteq> Some 0" by simp_all
  from Rep.prems(2) have "j \<in> set (concat (map (\<lambda>j. if i < j \<and> j \<le> length s
                               then rmatch (Rep (lo - 1) (map_option (\<lambda>h. h - 1) hi) r) s j
                               else [])
                       (rmatch r s i)))"
    unfolding rmatch.simps(4) [of lo hi r s i] using lo hi by simp
  then obtain k where "i < k" "k \<le> length s"
      "j \<in> set (rmatch (Rep (lo - 1) (map_option (\<lambda>h. h - 1) hi) r) s k)"
    by (auto split: if_splits)
  with rmatch_bounds [of j _ s k] show ?case by fastforce
qed

lemma finditer_from_spans:
  "consuming r \<Longrightarrow> m \<in> set (finditer_from r s i) \<Longrightarrow> fst m < snd m \<and> snd m \<le> length s"
proof (induction r s i rule: finditer_from.induct)
  case (1 r s i)
  show ?case
  proof (cases "length s < i")
    case True
    with "1.prems"(2) show ?thesis by (simp add: finditer_from.simps [of r s i])
  next
    case False
    then have i: "i \<le> length s" by simp
    show ?thesis
    proof (cases "rmatch r s i")
      case Nil
      with "1.prems"(2) False have "m \<in> set (finditer_from r s (Suc i))"
        by (simp add: finditer_from.simps [of r s i])
      from "1.IH"(1) [OF False Nil "1.prems"(1) this] show ?thesis .
    next
      case (Cons e es)
      then have e: "e \<in> set (rmatch r s i)" by simp
      from rmatch_consuming [OF "1.prems"(1) e i] rmatch_bounds [OF e i]
      have ie: "i < e" "e \<le> length s" by simp_all
      from "1.prems"(2) False Cons
      have "m = (i, e) \<or> m \<in> set (finditer_from r s (if i < e then e else Suc i))"
        by (simp add: finditer_from.simps [of r s i])
      then show ?thesis
      proof
        assume "m = (i, e)"
        with ie show ?thesis by simp
      next
        assume "m \<in> set (finditer_from r s (if i < e then e else Suc i))"
        from "1.IH"(2) [OF False Cons "1.prems"(1) this] show ?thesis .
      qed
    qed
  qed
qed

lemma finditer_spans:
  assumes "consuming r"
  shows "\<forall>m \<in> set (finditer r s). fst m < snd m \<and> snd m \<le> length s"
proof
  fix m assume "m \<in> set (finditer r s)"
  then have "m \<in> set (finditer_from r s 0)" by (simp only: finditer_def)
  from finditer_from_spans [OF assms this] show "fst m < snd m \<and> snd m \<le> length s" .
qed

lemma add_matches_positioned:
  assumes "\<forall>m \<in> set ms. fst m < snd m \<and> snd m \<le> length text"
    and "ty \<noteq> ''key_phrase''"
    and "\<forall>e \<in> set (fst st). positioned text e"
  shows "\<forall>e \<in> set (fst (add_matches ty text ms st)). positioned text e"
  using assms
proof (induction ms arbitrary: st)
  case Nil
  then show ?case by simp
next
  case (Cons m ms)
  obtain entities entity_id where st: "st = (entities, entity_id)" by (cases st)
  from Cons.prems have m: "fst m < snd m" "snd m \<le> length text" by simp_all
  let ?e = "\<lparr>e_id = ''entity_'' @ show_nat entity_id, e_type = ty,
             e_value = match_group text m, e_start = int (fst m), e_end = int (snd m)\<rparr>"
  from m Cons.prems(2) have "positioned text ?e" by (simp add: positioned_def del: show_nat.simps)
  with Cons.prems(3) st have "\<forall>e \<in> set (fst (entities @ [?e], Suc entity_id)). positioned text e"
    by (simp del: show_nat.simps)
  with Cons.IH [of "(entities @ [?e], Suc entity_id)"] Cons.prems(1,2) show ?case
    by (simp add: st del: show_nat.simps)
qed

lemma pattern_loop_positioned:
  assumes "\<forall>p \<in> set ps. consuming (snd p) \<and> fst p \<noteq> ''key_phrase''"
    and "\<forall>e \<in> set (fst st). positioned text e"
  shows "\<forall>e \<in> set (fst (pattern_loop ps text st)). positioned text e"
  using assms
proof (induction ps arbitrary: st)
  case Nil
  then show ?case by simp
next
  case (Cons p ps)
  obtain ty pat where p: "p = (ty, pat)" by (cases p)
  from Cons.prems(1) p have c: "consuming pat" and t: "ty \<noteq> ''key_phrase''" by simp_all
  have "\<forall>m \<in> set (finditer pat text). fst m < snd m \<and> snd m \<le> length text"
    by (rule finditer_spans [OF c])
  from add_matches_positioned [OF this t Cons.prems(2)]
  have "\<forall>e \<in> set (fst (add_matches ty text (finditer pat text) st)). positioned text e" .
  with Cons.IH [of "add_matches ty text (finditer pat text) st"] Cons.prems(1) show ?case
    by (simp add: p)
qed

lemma named_loop_positioned:
  assumes "\<forall>m \<in> set ms. fst m < snd m \<and> snd m \<le> length text"
    and "\<forall>e \<in> set (fst st). positioned text e"
  shows "\<forall>e \<in> set (fst (named_loop text ms seen st)). positioned text e"
  using assms
proof (induction ms arbitrary: st seen)
  case Nil
  then show ?case by simp
next
  case (Cons m ms)
  obtain entities entity_id where st: "st = (entities, entity_id)" by (cases st)
  from Cons.prems have m: "fst m < snd m" "snd m \<le> length text"
    and rest: "\<forall>m \<in> set ms. fst m < snd m \<and> snd m \<le> length text" by simp_all
  let ?e = "\<lparr>e_id = ''entity_'' @ show_nat entity_id, e_type = ''named_entity'',
             e_value = match_group text m, e_start = int (fst m), e_end = int (snd m)\<rparr>"
  from m have "positioned text ?e" by (simp add: positioned_def del: show_nat.simps)
  with Cons.prems(2) st have new: "\<forall>e \<in> set (fst (entities @ [?e], Suc entity_id)). positioned text e"
    by (simp del: show_nat.simps)
  show ?case
  proof (cases "2 < length (match_group text m) \<and> match_group text m \<notin> seen")
    case True
    with Cons.IH [OF rest new, of "insert (match_group text m) seen"] show ?thesis
      by (simp add: st del: show_nat.simps)
  next
    case False
    then have eq: "named_loop text (m # ms) seen (entities, entity_id)
        = named_loop text ms seen (entities, entity_id)"
      by (simp only: named_loop.simps if_False)
    from Cons.IH [OF rest Cons.prems(2), of seen] show ?thesis
      unfolding st eq .
  qed
qed

lemma phrase_loop_positioned:
  assumes "\<forall>e \<in> set (fst st). positioned text e"
  shows "\<forall>e \<in> set (fst (phrase_loop ps st)). positioned text e"
  using assms
proof (induction ps arbitrary: st)
  case Nil
  then show ?case by simp
next
  case (Cons p ps)
  obtain entities entity_id where st: "st = (entities, entity_id)" by (cases st)
  let ?e = "\<lparr>e_id = ''entity_'' @ show_nat entity_id, e_type = ''key_phrase'',
             e_value = p, e_start = - 1, e_end = - 1\<rparr>"
  have "positioned text ?e" by (simp add: positioned_def del: show_nat.simps)
  with Cons.prems st have "\<forall>e \<in> set (fst (entities @ [?e], Suc entity_id)). positioned text e"
    by (simp del: show_nat.simps)
  from Cons.IH [OF this] show ?case by (simp add: st del: show_nat.simps)
qed

lemma patterns_consuming: "\<forall>p \<in> set patterns. consuming (snd p) \<and> fst p \<noteq> ''key_phrase''"
  by (simp add: patterns_def email_pattern_def url_pattern_def phone_pattern_def date_pattern_def
      money_pattern_def one_or_more_def lit_def digit_class_def)

lemma capitalized_consuming: "consuming capitalized_pattern"
  by (simp add: capitalized_pattern_def one_or_more_def upper_class_def lower_class_def)

lemma extract_entities_positioned: "\<forall>e \<in> set (extract_entities text). positioned text e"
proof -
  have 1: "\<forall>e \<in> set (fst (pattern_loop patterns text ([], 0))). positioned text e"
    by (rule pattern_loop_positioned [OF patterns_consuming]) simp
  have "\<forall>m \<in> set (finditer capitalized_pattern text). fst m < snd m \<and> snd m \<le> length text"
    by (rule finditer_spans [OF capitalized_consuming])
  from named_loop_positioned [OF this 1]
  have 2: "\<forall>e \<in> set (fst (named_loop text (finditer capitalized_pattern text) {}
              (pattern_loop patterns text ([], 0)))). positioned text e" .
  from phrase_loop_positioned [OF 2] show ?thesis
    by (simp add: extract_entities_def Let_def)
qed

text \<open>
  C8. For every text, every entity returned by \<open>extract_entities\<close> has either
  \<open>0 \<le> start < end\<close> or \<open>start = end = -1\<close>, and none has \<open>start < 0\<close> together with
  \<open>end \<ge> 0\<close>: a key phrase has \<open>start = end = -1\<close>, and a pattern or named entity has real
  offsets, \<open>0 \<le> start < end \<le> len(text)\<close>.
\<close>

theorem extracted_entities_well_positioned:
  "\<forall>e \<in> set (extract_entities text).
      well_positioned e
    \<and> \<not> (e_start e < 0 \<and> 0 \<le> e_end e)
    \<and> (e_type e = ''key_phrase'' \<longrightarrow> e_start e = - 1 \<and> e_end e = - 1)
    \<and> (e_type e \<noteq> ''key_phrase'' \<longrightarrow>
          0 \<le> e_start e \<and> e_start e < e_end e \<and> e_end e \<le> int (length text))"
proof
  fix e assume "e \<in> set (extract_entities text)"
  then have "positioned text e" by (rule bspec [OF extract_entities_positioned])
  then show "well_positioned e
    \<and> \<not> (e_start e < 0 \<and> 0 \<le> e_end e)
    \<and> (e_type e = ''key_phrase'' \<longrightarrow> e_start e = - 1 \<and> e_end e = - 1)
    \<and> (e_type e \<noteq> ''key_phrase'' \<longrightarrow>
          0 \<le> e_start e \<and> e_start e < e_end e \<and> e_end e \<le> int (length text))"
    by (cases "e_type e = ''key_phrase''") (simp_all add: positioned_def well_positioned_def)
qed

text \<open>The run on \<open>short_text\<close>.\<close>

lemma short_run: "extract_entities short_text =
  [\<lparr>e_id = ''entity_0'', e_type = ''email'', e_value = ''bob@site.org'', e_start = 5, e_end = 17\<rparr>,
   \<lparr>e_id = ''entity_1'', e_type = ''named_entity'', e_value = ''Mail'', e_start = 0, e_end = 4\<rparr>,
   \<lparr>e_id = ''entity_2'', e_type = ''key_phrase'', e_value = ''mail'', e_start = - 1, e_end = - 1\<rparr>,
   \<lparr>e_id = ''entity_3'', e_type = ''key_phrase'', e_value = ''site'', e_start = - 1, e_end = - 1\<rparr>,
   \<lparr>e_id = ''entity_4'', e_type = ''key_phrase'', e_value = ''today'', e_start = - 1, e_end = - 1\<rparr>]"
  by code_simp

text \<open>
  On \<open>short_text\<close> the extractor returns an email at 5 to 17 and the key phrase \<open>mail\<close>;
  the theorem places both.
\<close>

theorem extracted_entities_well_positioned_witness:
  "short_email \<in> set (extract_entities short_text)
   \<and> e_type short_email = ''email''
   \<and> e_start short_email = 5 \<and> e_end short_email = 17
   \<and> well_positioned short_email
   \<and> \<not> (e_start short_email < 0 \<and> 0 \<le> e_end short_email)
   \<and> e_end short_email \<le> int (length short_text)
   \<and> short_phrase \<in> set (extract_entities short_text)
   \<and> e_type short_phrase = ''key_phrase''
   \<and> well_positioned short_phrase
   \<and> \<not> (e_start short_phrase < 0 \<and> 0 \<le> e_end short_phrase)
   \<and> e_start short_phrase = - 1 \<and> e_end short_phrase = - 1"
proof -
  have m1: "short_email \<in> set (extract_entities short_text)"
    by (simp add: short_run short_email_def)
  have m2: "short_phrase \<in> set (extract_entities short_text)"
    by (simp add: short_run short_phrase_def)
  have t1: "e_type short_email = ''email''" and s1: "e_start short_email = 5"
    and f1: "e_end short_email = 17"
    by (simp_all add: short_email_def)
  have n1: "e_type short_email \<noteq> ''key_phrase''" by (simp add: t1)
  have t2: "e_type short_phrase = ''key_phrase''" by (simp add: short_phrase_def)
  note r1 = extracted_entities_well_positioned [of short_text, THEN bspec, OF m1]
  note r2 = extracted_entities_well_positioned [of short_text, THEN bspec, OF m2]
  note w1 = r1 [THEN conjunct1]
  note x1 = r1 [THEN conjunct2, THEN conjunct1]
  note b1 = r1 [THEN conjunct2, THEN conjunct2, THEN conjunct2, THEN mp, OF n1,
      THEN conjunct2, THEN conjunct2]
  note w2 = r2 [THEN conjunct1]
  note x2 = r2 [THEN conjunct2, THEN conjunct1]
  note k2 = r2 [THEN conjunct2, THEN conjunct2, THEN conjunct1, THEN mp, OF t2]
  show ?thesis
    by (intro conjI m1 t1 s1 f1 w1 x1 b1 m2 t2 w2 x2 k2 [THEN conjunct1] k2 [THEN conjunct2])
qed

text \<open>The run on the text of the scenario.\<close>

lemma contact_run: "extract_entities contact_text =
  [\<lparr>e_id = ''entity_0'', e_type = ''email'', e_value = ''alice@example.com'', e_start = 23, e_end = 40\<rparr>,
   \<lparr>e_id = ''entity_1'', e_type = ''phone'', e_value = ''555-123-4567'', e_start = 44, e_end = 56\<rparr>,
   \<lparr>e_id = ''entity_2'', e_type = ''date'', e_value = ''01/02/2023'', e_start = 60, e_end = 70\<rparr>,
   \<lparr>e_id = ''entity_3'', e_type = ''money'', e_value = ''$1,200.00'', e_start = 75, e_end = 84\<rparr>,
   \<lparr>e_id = ''entity_4'', e_type = ''named_entity'', e_value = ''Contact Alice Smith'', e_start = 0, e_end = 19\<rparr>,
   \<lparr>e_id = ''entity_5'', e_type = ''key_phrase'', e_value = ''alice'', e_start = - 1, e_end = - 1\<rparr>,
   \<lparr>e_id = ''entity_6'', e_type = ''key_phrase'', e_value = ''contact'', e_start = - 1, e_end = - 1\<rparr>,
   \<lparr>e_id = ''entity_7'', e_type = ''key_phrase'', e_value = ''smith'', e_start = - 1, e_end = - 1\<rparr>,
   \<lparr>e_id = ''entity_8'', e_type = ''key_phrase'', e_value = ''example'', e_start = - 1, e_end = - 1\<rparr>]"
  by code_simp

text \<open>
  C2, as stated, fails. On the scenario's text the capitalized pattern matches greedily
  from position 0: the only named entity is \<open>Contact Alice Smith\<close>, and no entity of any
  type has the value \<open>Alice Smith\<close>.
\<close>

theorem contact_named_entity_is_greedy:
  "values_of_type ''named_entity'' (extract_entities contact_text) = [''Contact Alice Smith'']
   \<and> ''Alice Smith'' \<notin> set (values_of_type ''named_entity'' (extract_entities contact_text))
   \<and> ''Alice Smith'' \<notin> set (map e_value (extract_entities contact_text))"
  by (simp add: contact_run values_of_type_def)

text \<open>
  C2, amended. On the scenario's text \<open>extract_entities\<close> returns exactly one entity of
  each of the types email, phone, date and money, with the values written in the text,
  and exactly one named entity, whose value is \<open>Contact Alice Smith\<close>, the single match
  of the capitalized pattern, at 0 to 19.
\<close>

theorem contact_scenario:
  "values_of_type ''email'' (extract_entities contact_text) = [''alice@example.com'']
   \<and> values_of_type ''phone'' (extract_entities contact_text) = [''555-123-4567'']
   \<and> values_of_type ''date'' (extract_entities contact_text) = [''01/02/2023'']
   \<and> values_of_type ''money'' (extract_entities contact_text) = [''$1,200.00'']
   \<and> values_of_type ''named_entity'' (extract_entities contact_text) = [''Contact Alice Smith'']
   \<and> match_group contact_text (0, 19) = ''Contact Alice Smith''
   \<and> finditer capitalized_pattern contact_text = [(0, 19)]"
proof -
  have f: "finditer capitalized_pattern contact_text = [(0, 19)]" by code_simp
  have g: "match_group contact_text (0, 19) = ''Contact Alice Smith''"
    by (simp add: match_group_def contact_text_def)
  show ?thesis by (simp add: contact_run values_of_type_def f g)
qed

end
